theory Spec2Isabelle
  imports Complex_Main "HOL-Library.Word" "HOL-Library.Signed_Division"
begin

unbundle bit_operations_syntax

section \<open>Representation\<close>

text \<open>
  \<^verbatim>\<open>typedef int32_t fixed;\<close>  A Q16.16 value is a 32-bit two's-complement word.
  Signed arithmetic of the C source (\<^verbatim>\<open>-a\<close>, \<^verbatim>\<open>a+b\<close>, \<^verbatim>\<open>r <<= 1\<close>, \<^verbatim>\<open>sign*x\<close>) is
  modelled with two's-complement wrap-around, which is what word arithmetic does.
  Conversion of an \<^verbatim>\<open>int\<close> to \<^verbatim>\<open>uint64_t\<close> is sign extension (\<open>scast\<close>); conversion of a
  \<^verbatim>\<open>uint64_t\<close> to \<^verbatim>\<open>fixed\<close> keeps the low 32 bits (\<open>ucast\<close>).
\<close>

type_synonym fixed = "32 word"

definition FIXED_1 :: fixed where "FIXED_1 = 0x10000"
definition INT_MAX :: fixed where "INT_MAX = 0x7FFFFFFF"
definition FIXED_E :: fixed where "FIXED_E = 0x2B7E1"
definition FIXED_SQRT2 :: fixed where "FIXED_SQRT2 = 0x16A0A"
definition FIXED_LN2 :: fixed where "FIXED_LN2 = 0xB172"
definition FIXED_PI :: fixed where "FIXED_PI = 0x3243F"
definition FIXED_PIBY2 :: fixed where "FIXED_PIBY2 = 0x19220"
definition FIXED_3PIBY2 :: fixed where "FIXED_3PIBY2 = 0x4B65F"
definition FIXED_2PI :: fixed where "FIXED_2PI = 0x6487F"

text \<open>\<^verbatim>\<open>#define INT_TO_FIX(N) (fixed)(N<<16)\<close>\<close>

definition INT_TO_FIX :: "fixed \<Rightarrow> fixed" where
  "INT_TO_FIX n = push_bit 16 n"

text \<open>
  The C expression \<^verbatim>\<open>x << k\<close> on a 32-bit \<^verbatim>\<open>int\<close> with a count \<open>k\<close> held in a variable.
  C leaves the result undefined for a count outside \<open>0..31\<close>; the model takes the count
  modulo 32, as the shift instructions of x86-64 and AArch64 do.
\<close>

definition shl_int :: "fixed \<Rightarrow> int \<Rightarrow> fixed" where
  "shl_int x k = push_bit (nat (k mod 32)) x"

text \<open>
  \<^verbatim>\<open>#define FIX_TO_FLOAT(N) (((float)N)/FIXED_1)\<close>  The exact value a raw word stands
  for, without the rounding of \<^verbatim>\<open>float\<close>.
\<close>

definition fixed_value :: "fixed \<Rightarrow> real" where
  "fixed_value f = real_of_int (sint f) / 65536"

section \<open>Arithmetic engine\<close>

text \<open>
  \<^verbatim>\<open>
  fixed mul_fixed(fixed a, fixed b) {
      int sign = 1;
      if (a<0) { sign *= -1; a = -a; }
      if (b<0) { sign *= -1; b = -b; }
      uint64_t along = ((uint64_t)a);
      uint64_t blong = ((uint64_t)b);
      return sign*((fixed)((along*blong)>>16));
  }\<close>
\<close>

definition mul_fixed :: "fixed \<Rightarrow> fixed \<Rightarrow> fixed" where
  "mul_fixed a b =
    (let sign0 = (1 :: fixed);
         (sign1, a1) = (if a <s 0 then (sign0 * (- 1), - a) else (sign0, a));
         (sign2, b1) = (if b <s 0 then (sign1 * (- 1), - b) else (sign1, b));
         along = (scast a1 :: 64 word);
         blong = (scast b1 :: 64 word)
     in sign2 * (ucast (drop_bit 16 (along * blong)) :: fixed))"

text \<open>
  \<^verbatim>\<open>
  fixed div_fixed(fixed a, fixed b) {
      int sign = 1;
      if (a<0) { sign *= -1; a = -a; }
      if (b<0) { sign *= -1; b = -b; }
      uint64_t q = 0;
      uint64_t n = ((uint64_t)a) << 16;
      fixed r = 0;
      for (int i=63; i>=0; i--) {
          r <<= 1;
          r |= ((n & (1<<i))>>i); // set 0th bit of r to ith bit of numerator
          if (r >= b) { r -= b; q |= (1 << i); }
      }
      return sign*((fixed)q);
  }\<close>
  The literal \<^verbatim>\<open>1\<close> is an \<^verbatim>\<open>int\<close>, so \<^verbatim>\<open>1<<i\<close> is a 32-bit shift whose result is sign
  extended when it meets the 64-bit operands \<open>n\<close> and \<open>q\<close>.  The remainder \<open>r\<close> is a
  32-bit \<^verbatim>\<open>fixed\<close>: the 64-bit value of \<^verbatim>\<open>r | ...\<close> is cut back to 32 bits on assignment.
  In the state of the loop, \<open>rem\<close> is the variable \<^verbatim>\<open>r\<close> and \<open>quo\<close> the variable \<^verbatim>\<open>q\<close>;
  the field \<open>iters\<close> is a ghost counter of executed loop bodies.
\<close>

record div_state =
  rem :: fixed
  quo :: "64 word"
  iters :: nat

definition div_step :: "64 word \<Rightarrow> fixed \<Rightarrow> nat \<Rightarrow> div_state \<Rightarrow> div_state" where
  "div_step n b i s =
    (let r1 = push_bit 1 (rem s);
         r2 = (ucast ((scast r1 :: 64 word) OR drop_bit i (n AND scast (shl_int 1 (int i)))) :: fixed)
     in if b \<le>s r2
        then \<lparr>rem = r2 - b, quo = quo s OR scast (shl_int 1 (int i)), iters = Suc (iters s)\<rparr>
        else \<lparr>rem = r2, quo = quo s, iters = Suc (iters s)\<rparr>)"

text \<open>\<open>div_loop n b k s\<close> runs the loop bodies for \<open>i = k - 1, \<dots>, 0\<close>.\<close>

primrec div_loop :: "64 word \<Rightarrow> fixed \<Rightarrow> nat \<Rightarrow> div_state \<Rightarrow> div_state" where
  "div_loop n b 0 s = s"
| "div_loop n b (Suc i) s = div_loop n b i (div_step n b i s)"

definition div_fixed_run :: "fixed \<Rightarrow> fixed \<Rightarrow> fixed \<times> div_state" where
  "div_fixed_run a b =
    (let sign0 = (1 :: fixed);
         (sign1, a1) = (if a <s 0 then (sign0 * (- 1), - a) else (sign0, a));
         (sign2, b1) = (if b <s 0 then (sign1 * (- 1), - b) else (sign1, b));
         n = push_bit 16 (scast a1 :: 64 word)
     in (sign2, div_loop n b1 64 \<lparr>rem = 0, quo = 0, iters = 0\<rparr>))"

definition div_fixed :: "fixed \<Rightarrow> fixed \<Rightarrow> fixed" where
  "div_fixed a b = (case div_fixed_run a b of (sign, s) \<Rightarrow> sign * (ucast (quo s) :: fixed))"

text \<open>
  The same loop with its control flow: the counter \<^verbatim>\<open>i\<close> of \<^verbatim>\<open>for (int i=63; i>=0; i--)\<close>
  is tested before each body and decremented after it.  The counter stays between \<open>-1\<close>
  and \<open>63\<close>, so it is an integer without wrap-around here.  The result is \<open>None\<close> if the
  loop is never left.  \<open>div_fixed_exec\<close> is \<^verbatim>\<open>div_fixed\<close> run through this loop: it returns
  the value together with the number of loop bodies that were executed.
\<close>

partial_function (option) div_for :: "64 word \<Rightarrow> fixed \<Rightarrow> int \<Rightarrow> div_state \<Rightarrow> div_state option" where
  "div_for n b i s = (if 0 \<le> i then div_for n b (i - 1) (div_step n b (nat i) s) else Some s)"

definition div_fixed_exec :: "fixed \<Rightarrow> fixed \<Rightarrow> (fixed \<times> nat) option" where
  "div_fixed_exec a b =
    (let sign0 = (1 :: fixed);
         (sign1, a1) = (if a <s 0 then (sign0 * (- 1), - a) else (sign0, a));
         (sign2, b1) = (if b <s 0 then (sign1 * (- 1), - b) else (sign1, b));
         n = push_bit 16 (scast a1 :: 64 word)
     in case div_for n b1 63 \<lparr>rem = 0, quo = 0, iters = 0\<rparr> of
          None \<Rightarrow> None
        | Some s \<Rightarrow> Some (sign2 * (ucast (quo s) :: fixed), iters s))"

text \<open>
  \<^verbatim>\<open>
  int get_scale(fixed f) {
      int scale = 15;
      while (scale > -16) {
          if (f&(1<<(scale+15))) return scale;
          scale--;
      }
      return scale;
  }\<close>
\<close>

function get_scale_loop :: "fixed \<Rightarrow> int \<Rightarrow> int" where
  "get_scale_loop f scale =
    (if scale > - 16
     then (if f AND shl_int 1 (scale + 15) \<noteq> 0 then scale else get_scale_loop f (scale - 1))
     else scale)"
  by pat_completeness auto
termination
  by (relation "measure (\<lambda>(f, scale). nat (scale + 16))") auto

definition get_scale :: "fixed \<Rightarrow> int" where
  "get_scale f = get_scale_loop f 15"

text \<open>
  \<^verbatim>\<open>
  #define div_fast_fixed(a,b) (((b>>8) != 0) ? (a<<8)/(b>>8) :
                              (((a<<8) > 0)?INT_MAX:-INT_MAX))\<close>
  For \<^verbatim>\<open>fixed\<close> arguments.  \<^verbatim>\<open>>>\<close> on a signed value is the arithmetic shift, \<^verbatim>\<open>/\<close>
  truncates towards zero.  The quotient of the most negative value by \<open>-1\<close> traps on the
  usual targets: that is the result \<open>None\<close>.
\<close>

definition div_fast_fixed :: "fixed \<Rightarrow> fixed \<Rightarrow> fixed option" where
  "div_fast_fixed a b =
    (if signed_drop_bit 8 b \<noteq> 0
     then (if push_bit 8 a = - 0x80000000 \<and> signed_drop_bit 8 b = - 1 then None
           else Some (word_of_int (sint (push_bit 8 a) sdiv sint (signed_drop_bit 8 b))))
     else Some (if 0 <s push_bit 8 a then INT_MAX else - INT_MAX))"

section \<open>Transcendental library\<close>

text \<open>
  \<^verbatim>\<open>
  // Works only for 1<f<2
  fixed sqrt_NR_fixed(fixed f, int niter) {
      fixed rf = FIXED_1 + ((f-FIXED_1)>>1);
      for (int i=0; i<niter; i++) {
          rf = mul_fixed(INT_TO_FIX(2),rf+div_fixed(f,rf));
      }
      return rf;
  }\<close>
  \<open>NR_loop f k rf\<close> runs \<open>k\<close> loop bodies.
\<close>

primrec NR_loop :: "fixed \<Rightarrow> nat \<Rightarrow> fixed \<Rightarrow> fixed" where
  "NR_loop f 0 rf = rf"
| "NR_loop f (Suc k) rf = NR_loop f k (mul_fixed (INT_TO_FIX 2) (rf + div_fixed f rf))"

definition sqrt_NR_fixed :: "fixed \<Rightarrow> int \<Rightarrow> fixed" where
  "sqrt_NR_fixed f niter = NR_loop f (nat niter) (FIXED_1 + signed_drop_bit 1 (f - FIXED_1))"

text \<open>
  \<^verbatim>\<open>
  fixed sqrt_fast_fixed(fixed f) {
      if (f == 0) return 0;
      else if (f < 0) return -INT_MAX;
      else if (f == FIXED_1) return FIXED_1;
      else {
          int div = get_scale(f)-1;
          f = div_fixed(f,(1<<(div+16)));
          fixed root = FIXED_1;
          if (div % 2 != 0) { root = FIXED_SQRT2; }
          // in C, 3/2 = 1 but (-3)/2 = -1 and not -2
          if (div < 0) div--;
          fixed sf_root = 1<<(16+div/2);
          root = mul_fixed(root, sf_root);
          root = mul_fixed(root, sqrt_NR_fixed(f, 2)); // NR for 2 iterations
          return root;
      }
  }\<close>
  C's \<^verbatim>\<open>/\<close> and \<^verbatim>\<open>%\<close> on \<^verbatim>\<open>int\<close> truncate towards zero: \<open>sdiv\<close> and \<open>smod\<close>.
\<close>

definition sqrt_fast_fixed :: "fixed \<Rightarrow> fixed" where
  "sqrt_fast_fixed f =
    (if f = 0 then 0
     else if f <s 0 then - INT_MAX
     else if f = FIXED_1 then FIXED_1
     else
      (let div0 = get_scale f - 1;
           f1 = div_fixed f (shl_int 1 (div0 + 16));
           root0 = (if div0 smod 2 \<noteq> 0 then FIXED_SQRT2 else FIXED_1);
           div1 = (if div0 < 0 then div0 - 1 else div0);
           sf_root = shl_int 1 (16 + div1 sdiv 2);
           root1 = mul_fixed root0 sf_root
       in mul_fixed root1 (sqrt_NR_fixed f1 2)))"

text \<open>
  \<^verbatim>\<open>
  fixed ln_taylor_fixed(fixed f) {
      f -= FIXED_1;
      fixed f2 = mul_fixed(f,f);
      fixed f3 = mul_fixed(f2,f);
      fixed f4 = mul_fixed(f3,f);
      fixed lf = f - (f2>>1) + div_fixed(f3,INT_TO_FIX(3)) - (f4>>2);
      return lf;
  }
  fixed ln_fast_fixed(fixed f) {
      if (f<=0) return -INT_MAX;
      else if (f == FIXED_1) return 0;
      else {
          int div = get_scale(f)-1;
          f = div_fixed(f,(1<<(div+16)));
          fixed log = mul_fixed(INT_TO_FIX(div),FIXED_LN2) + ln_taylor_fixed(f);
          return log;
      }
  }\<close>
\<close>

definition ln_taylor_fixed :: "fixed \<Rightarrow> fixed" where
  "ln_taylor_fixed f0 =
    (let f = f0 - FIXED_1;
         f2 = mul_fixed f f;
         f3 = mul_fixed f2 f;
         f4 = mul_fixed f3 f
     in f - signed_drop_bit 1 f2 + div_fixed f3 (INT_TO_FIX 3) - signed_drop_bit 2 f4)"

definition ln_fast_fixed :: "fixed \<Rightarrow> fixed" where
  "ln_fast_fixed f =
    (if f \<le>s 0 then - INT_MAX
     else if f = FIXED_1 then 0
     else
      (let div0 = get_scale f - 1;
           f1 = div_fixed f (shl_int 1 (div0 + 16))
       in mul_fixed (INT_TO_FIX (word_of_int div0)) FIXED_LN2 + ln_taylor_fixed f1))"


text \<open>
  \<^verbatim>\<open>
  fixed sin_fixed(fixed f) {
      if (f>0 && f<FIXED_PIBY2) {
          fixed f3 = mul_fixed(mul_fixed(f,f),f);
          fixed f5 = mul_fixed(mul_fixed(f3,f),f);
          fixed f7 = mul_fixed(mul_fixed(f5,f),f);
          return f - div_fixed(f3,INT_TO_FIX(6)) +
                 div_fixed(f5,INT_TO_FIX(120)) - div_fixed(f7,INT_TO_FIX(5040));
      }
      else if(f>FIXED_PIBY2 && f<FIXED_PI) { return sin_fixed(FIXED_PI-f); }
      else if(f>FIXED_PI && f<FIXED_3PIBY2) { return -sin_fixed(f-FIXED_PI); }
      else if(f>FIXED_3PIBY2 && f<FIXED_2PI) { return -sin_fixed(FIXED_2PI-f); }
      else {
          while (!(f>0 && f<FIXED_2PI)) {
              if (f>FIXED_2PI) { f -= FIXED_2PI; }
              else if (f<0) { f += FIXED_2PI; }
          }
          return sin_fixed(f);
      }
      return 0;
  }\<close>
  Neither the \<^verbatim>\<open>while\<close> loop nor the recursion has an evident bound, so both are partial
  functions into \<open>option\<close>: \<open>None\<close> is a run that never returns.
\<close>

definition sin_series :: "fixed \<Rightarrow> fixed" where
  "sin_series f =
    (let f3 = mul_fixed (mul_fixed f f) f;
         f5 = mul_fixed (mul_fixed f3 f) f;
         f7 = mul_fixed (mul_fixed f5 f) f
     in f - div_fixed f3 (INT_TO_FIX 6) + div_fixed f5 (INT_TO_FIX 120)
          - div_fixed f7 (INT_TO_FIX 5040))"

partial_function (option) sin_reduce :: "fixed \<Rightarrow> fixed option" where
  "sin_reduce f =
    (if \<not> (0 <s f \<and> f <s FIXED_2PI)
     then sin_reduce (if FIXED_2PI <s f then f - FIXED_2PI
                      else if f <s 0 then f + FIXED_2PI
                      else f)
     else Some f)"

partial_function (option) sin_fixed :: "fixed \<Rightarrow> fixed option" where
  "sin_fixed f =
    (if 0 <s f \<and> f <s FIXED_PIBY2 then Some (sin_series f)
     else if FIXED_PIBY2 <s f \<and> f <s FIXED_PI then sin_fixed (FIXED_PI - f)
     else if FIXED_PI <s f \<and> f <s FIXED_3PIBY2
       then Option.bind (sin_fixed (f - FIXED_PI)) (\<lambda>v. Some (- v))
     else if FIXED_3PIBY2 <s f \<and> f <s FIXED_2PI
       then Option.bind (sin_fixed (FIXED_2PI - f)) (\<lambda>v. Some (- v))
     else Option.bind (sin_reduce f) sin_fixed)"

section \<open>String formatter\<close>

text \<open>
  \<^verbatim>\<open>
  const uint64_t DEC_LOOKUP[] = { 500000000000, ..., 15258789 };
  const uint64_t OVERFLOW = 1000000000000L;

  char* fixed_to_dec_str(fixed f) {
      int neg = 0;
      if (f<0) { neg = 1; f = -f; }
      uint16_t intpart = (uint16_t)(f >> 16);
      uint64_t decpart = 0L;
      for (int i=15; i>=0; i--) {
          if ((f & (1 << i))) { decpart += DEC_LOOKUP[15-i]; }
          if (decpart > OVERFLOW) { intpart++; decpart -= OVERFLOW; }
      }
      int len = 3 + 12;
      uint16_t intpartcpy = intpart;
      while (intpartcpy > 0) { len++; intpartcpy /= 10; }
      char* str = malloc(len);
      snprintf(str, len, " %d.%012ld", intpart, decpart);
      for (int i=len-2; i>=0; i--) {
          if (str[i] == '0') len--;
          else break;
      }
      str[len-1] = NUL;
      if (neg) str[0] = '-';
      return str;
  }\<close>
  The buffer is a list of characters that ends with the terminating \<open>NUL\<close>; the result is
  the C string it holds, the characters before the first \<open>NUL\<close>.  \<^verbatim>\<open>snprintf\<close> belongs to the
  C library: it writes at most \<open>len - 1\<close> characters of the formatted text and then \<open>NUL\<close>.
\<close>

definition DEC_LOOKUP :: "64 word list" where
  "DEC_LOOKUP = [500000000000, 250000000000, 125000000000, 62500000000, 31250000000,
     15625000000, 7812500000, 3906250000, 1953125000, 976562500, 488281250, 244140625,
     122070312, 61035156, 30517578, 15258789]"

definition OVERFLOW :: "64 word" where
  "OVERFLOW = 1000000000000"

definition dec_step :: "fixed \<Rightarrow> nat \<Rightarrow> 16 word \<times> 64 word \<Rightarrow> 16 word \<times> 64 word" where
  "dec_step f i s =
    (case s of (intpart, decpart) \<Rightarrow>
      (let decpart1 = (if f AND shl_int 1 (int i) \<noteq> 0 then decpart + DEC_LOOKUP ! (15 - i)
                       else decpart)
       in if OVERFLOW < decpart1 then (intpart + 1, decpart1 - OVERFLOW)
          else (intpart, decpart1)))"

text \<open>\<open>dec_loop f k s\<close> runs the loop bodies for \<open>i = k - 1, \<dots>, 0\<close>.\<close>

primrec dec_loop :: "fixed \<Rightarrow> nat \<Rightarrow> 16 word \<times> 64 word \<Rightarrow> 16 word \<times> 64 word" where
  "dec_loop f 0 s = s"
| "dec_loop f (Suc i) s = dec_loop f i (dec_step f i s)"

function len_loop :: "16 word \<Rightarrow> int \<Rightarrow> int" where
  "len_loop intpartcpy len =
    (if 0 < intpartcpy then len_loop (intpartcpy div 10) (len + 1) else len)"
  by pat_completeness auto
termination
proof (relation "measure (\<lambda>(c, len). unat c)")
  show "wf (measure (\<lambda>(c :: 16 word, len :: int). unat c))" by simp
next
  fix c :: "16 word" and len :: int
  assume "0 < c"
  then have "0 < unat c" by (simp add: word_less_nat_alt)
  then have "unat c div 10 < unat c" by simp
  then show "((c div 10, len + 1), (c, len)) \<in> measure (\<lambda>(c, len). unat c)"
    by (simp add: unat_div)
qed

definition digit_char :: "nat \<Rightarrow> char" where
  "digit_char d = ''0123456789'' ! d"

fun dec_digits :: "nat \<Rightarrow> string" where
  "dec_digits n =
    (if n < 10 then [digit_char n] else dec_digits (n div 10) @ [digit_char (n mod 10)])"

text \<open>The conversions \<^verbatim>\<open>%d\<close> and \<^verbatim>\<open>%012ld\<close> of \<^verbatim>\<open>printf\<close>.\<close>

definition fmt_d :: "int \<Rightarrow> string" where
  "fmt_d k = (if k < 0 then CHR ''-'' # dec_digits (nat (- k)) else dec_digits (nat k))"

definition fmt_012ld :: "int \<Rightarrow> string" where
  "fmt_012ld k =
    (let ds = dec_digits (nat \<bar>k\<bar>);
         sg = (if k < 0 then ''-'' else [])
     in sg @ replicate (12 - length sg - length ds) CHR ''0'' @ ds)"

definition NUL :: char where
  "NUL = CHR 0x00"

definition snprintf_dec :: "int \<Rightarrow> 16 word \<Rightarrow> 64 word \<Rightarrow> string" where
  "snprintf_dec len intpart decpart =
     take (nat (len - 1)) ('' '' @ fmt_d (uint intpart) @ ''.'' @ fmt_012ld (sint decpart))
     @ [NUL]"

function trim_loop :: "string \<Rightarrow> int \<Rightarrow> int \<Rightarrow> int" where
  "trim_loop str i len =
    (if 0 \<le> i
     then (if str ! nat i = CHR ''0'' then trim_loop str (i - 1) (len - 1) else len)
     else len)"
  by pat_completeness auto
termination
  by (relation "measure (\<lambda>(str, i, len). nat (i + 1))") auto

definition c_string :: "string \<Rightarrow> string" where
  "c_string buf = takeWhile (\<lambda>c. c \<noteq> NUL) buf"

definition fixed_to_dec_str :: "fixed \<Rightarrow> string" where
  "fixed_to_dec_str f0 =
    (let (neg, f) = (if f0 <s 0 then (True, - f0) else (False, f0));
         intpart0 = (ucast (signed_drop_bit 16 f) :: 16 word);
         (intpart, decpart) = dec_loop f 16 (intpart0, 0);
         len = len_loop intpart (3 + 12);
         str = snprintf_dec len intpart decpart;
         len1 = trim_loop str (len - 2) len;
         str1 = str[nat (len1 - 1) := NUL];
         str2 = (if neg then str1[0 := CHR ''-''] else str1)
     in c_string str2)"

section \<open>What the specification asks of the exact divide\<close>

text \<open>
  The result the specification states for \<open>div_fixed\<close>, in its words: the sign of \<open>a\<close> times
  the sign of \<open>b\<close> times the truncation to 32 bits of
  \<open>floor ((|a| << 16) / |b|)\<close>.
\<close>

definition div_spec :: "fixed \<Rightarrow> fixed \<Rightarrow> fixed" where
  "div_spec a b =
     word_of_int (sgn (sint a) * sgn (sint b) * ((\<bar>sint a\<bar> * 2 ^ 16) div \<bar>sint b\<bar>))"

text \<open>
  The invariant of restoring division before the loop body for bit \<open>i - 1\<close> runs: the
  remainder and the quotient are those of the numerator's bits from \<open>i\<close> upwards.
\<close>

definition div_inv :: "int \<Rightarrow> int \<Rightarrow> nat \<Rightarrow> div_state \<Rightarrow> bool" where
  "div_inv N B i s \<longleftrightarrow>
     uint (rem s) = (N div 2 ^ i) mod B \<and> uint (quo s) = (N div 2 ^ i) div B * 2 ^ i"

declare get_scale_loop.simps [simp del] len_loop.simps [simp del]
  trim_loop.simps [simp del] dec_digits.simps [simp del]

section \<open>Signed and unsigned readings of a word\<close>

text \<open>
  A \<^verbatim>\<open>fixed\<close> that is not negative reads the same signed and unsigned; a signed comparison
  of two such words is the comparison of their unsigned values.
\<close>

lemma uint_eq_sint_nonneg:
  fixes w :: fixed
  assumes "0 \<le> sint w"
  shows "uint w = sint w"
proof -
  have "sint w < 2 ^ (LENGTH(32) - 1)" by (rule sint_lt)
  then have "sint w < 2 ^ 32" by simp
  with assms have "take_bit 32 (sint w) = sint w"
    by (rule take_bit_int_eq_self)
  then show ?thesis by (simp add: uint_sint)
qed

lemma sint_eq_uint_small:
  fixes w :: fixed
  assumes "uint w < 2 ^ 31"
  shows "sint w = uint w"
proof -
  have "- (2 ^ 31) \<le> uint w" by (rule order_trans [of _ 0]) simp_all
  then have "signed_take_bit 31 (uint w) = uint w"
    using assms by (rule signed_take_bit_int_eq_self)
  then show ?thesis by (simp add: sint_uint)
qed

lemma sle_nonneg:
  fixes x y :: fixed
  assumes "uint x < 2 ^ 31" "uint y < 2 ^ 31"
  shows "x \<le>s y \<longleftrightarrow> uint x \<le> uint y"
proof -
  have "- (2 ^ 31) \<le> uint x" "- (2 ^ 31) \<le> uint y"
    by (rule order_trans [of _ 0]; simp)+
  then have "signed_take_bit 31 (uint x) = uint x" "signed_take_bit 31 (uint y) = uint y"
    using assms by (simp_all add: signed_take_bit_int_eq_self)
  then show ?thesis
    by (simp add: word_sle_eq sint_uint)
qed

lemma shl_int_nat: "i < 32 \<Longrightarrow> shl_int 1 (int i) = 2 ^ i"
  by (simp add: shl_int_def)

lemma shl_int_1_small: "0 \<le> k \<Longrightarrow> k < 32 \<Longrightarrow> shl_int 1 k = 2 ^ nat k"
  by (simp add: shl_int_def)

lemma uint_exp_64:
  assumes "i < 64"
  shows "uint (2 ^ i :: 64 word) = 2 ^ i"
proof -
  have "(2::int) ^ i < 2 ^ 64"
    using assms by (intro power_strict_increasing) simp_all
  then have "take_bit 64 ((2::int) ^ i) = 2 ^ i"
    by (intro take_bit_int_eq_self) simp_all
  moreover have "uint (2 ^ i :: 64 word) = take_bit 64 (2 ^ i)"
    using uint_word_of_int_eq [of "2 ^ i", where ?'a = 64] by simp
  ultimately show ?thesis by simp
qed

section \<open>The loop of the exact divide\<close>

subsection \<open>One iteration for a bit below bit 31\<close>

text \<open>
  For \<open>i < 31\<close> the mask \<^verbatim>\<open>1<<i\<close> is the single bit \<open>i\<close>, the loop body pulls bit \<open>i\<close> of
  the numerator into the remainder, and, as long as the divisor is at most \<open>2^30\<close>, the
  doubled remainder fits the 32-bit \<^verbatim>\<open>fixed\<close>.  The body is then one step of long division.
\<close>

lemma scast_exp_small: "i < 31 \<Longrightarrow> (scast (2 ^ i :: fixed) :: 64 word) = 2 ^ i"
  by (rule bit_eqI) (auto simp: bit_simps min_def)

lemma pulled_bit_small:
  "i < 31 \<Longrightarrow> drop_bit i (n AND scast (shl_int 1 (int i))) = (of_bool (bit n i) :: 64 word)"
  by (rule bit_eqI) (auto simp: shl_int_nat scast_exp_small bit_simps)

lemma ucast_scast_or:
  "(ucast ((scast (x :: fixed) :: 64 word) OR y) :: fixed) = x OR ucast y"
proof (rule bit_eqI)
  fix k
  assume "possible_bit TYPE(fixed) k"
  then have k: "k < 32" by (simp add: possible_bit_def)
  then have m: "min 31 k = k" by simp
  show "bit (ucast ((scast x :: 64 word) OR y) :: fixed) k = bit (x OR ucast y) k"
    using k by (simp add: bit_simps m)
qed

lemma or_bit_ucast:
  "(ucast ((scast (push_bit 1 r :: fixed) :: 64 word) OR of_bool c) :: fixed) = 2 * r + of_bool c"
proof -
  have "(ucast ((scast (push_bit 1 r :: fixed) :: 64 word) OR of_bool c) :: fixed)
      = push_bit 1 r OR ucast (of_bool c :: 64 word)"
    by (rule ucast_scast_or)
  also have "\<dots> = 2 * r + of_bool c"
    by (cases c) (simp_all add: or_one_eq push_bit_eq_mult)
  finally show ?thesis .
qed

lemma uint_double_plus:
  fixes r :: fixed
  assumes "uint r < 2 ^ 30"
  shows "uint (2 * r + of_bool c) = 2 * uint r + of_bool c"
proof -
  have "2 * r + of_bool c = (word_of_int (2 * uint r + of_bool c) :: fixed)"
    by simp
  moreover have "take_bit 32 (2 * uint r + of_bool c) = 2 * uint r + of_bool c"
    using assms by (intro take_bit_int_eq_self) simp_all
  ultimately show ?thesis
    by (simp only: uint_word_of_int_eq) simp
qed

lemma or_exp_uint:
  fixes q :: "64 word"
  assumes "i < 64" "uint q = k * 2 ^ Suc i"
  shows "uint (q OR 2 ^ i) = uint q + 2 ^ i"
proof -
  have "\<not> bit (uint q) i"
    unfolding assms(2) by (simp add: bit_iff_odd)
  then have "uint q AND 2 ^ i = 0"
    by (simp add: and_exp_eq_0_iff_not_bit)
  then have "uint q + 2 ^ i = uint q OR 2 ^ i"
    by (rule disjunctive_add_eq_or)
  then show ?thesis
    by (simp add: uint_or uint_exp_64 [OF assms(1)])
qed

lemma divmod_shift:
  fixes B q r :: int
  assumes "0 \<le> r" "r < B"
  shows "(r + B * q) div B = q" "(r + B * q) mod B = r"
proof -
  have nz: "B \<noteq> 0" using assms by simp
  have "(r + B * q) div B = q + r div B" by (rule div_mult_self2 [OF nz])
  then show "(r + B * q) div B = q"
    using assms by (simp add: div_pos_pos_trivial)
  have "(r + B * q) mod B = r mod B" by (rule mod_mult_self2)
  then show "(r + B * q) mod B = r"
    using assms by (simp add: mod_pos_pos_trivial)
qed

lemma divmod_step:
  fixes X B c :: int
  assumes "0 < B" "0 \<le> X" "c = 0 \<or> c = 1"
  shows "B \<le> 2 * (X mod B) + c \<Longrightarrow>
           (2 * X + c) div B = 2 * (X div B) + 1 \<and> (2 * X + c) mod B = 2 * (X mod B) + c - B"
    and "\<not> B \<le> 2 * (X mod B) + c \<Longrightarrow>
           (2 * X + c) div B = 2 * (X div B) \<and> (2 * X + c) mod B = 2 * (X mod B) + c"
proof -
  define Q R where "Q = X div B" and "R = X mod B"
  have m: "0 \<le> R" "R < B" using assms(1) by (simp_all add: R_def)
  have X: "X = B * Q + R" by (simp add: Q_def R_def)
  {
    assume ge: "B \<le> 2 * R + c"
    have e: "2 * X + c = (2 * R + c - B) + B * (2 * Q + 1)"
      unfolding X by (simp add: algebra_simps)
    have r: "0 \<le> 2 * R + c - B" "2 * R + c - B < B"
      using ge m assms(3) by auto
    have "(2 * X + c) div B = 2 * Q + 1 \<and> (2 * X + c) mod B = 2 * R + c - B"
      unfolding e using divmod_shift [OF r] by simp
  }
  then show "B \<le> 2 * (X mod B) + c \<Longrightarrow>
           (2 * X + c) div B = 2 * (X div B) + 1 \<and> (2 * X + c) mod B = 2 * (X mod B) + c - B"
    by (simp add: Q_def R_def)
  {
    assume lt: "\<not> B \<le> 2 * R + c"
    have e: "2 * X + c = (2 * R + c) + B * (2 * Q)"
      unfolding X by (simp add: algebra_simps)
    have r: "0 \<le> 2 * R + c" "2 * R + c < B"
      using lt m assms(3) by auto
    have "(2 * X + c) div B = 2 * Q \<and> (2 * X + c) mod B = 2 * R + c"
      unfolding e using divmod_shift [OF r] by simp
  }
  then show "\<not> B \<le> 2 * (X mod B) + c \<Longrightarrow>
           (2 * X + c) div B = 2 * (X div B) \<and> (2 * X + c) mod B = 2 * (X mod B) + c"
    by (simp add: Q_def R_def)
qed

lemma div_exp_bit:
  fixes n :: "64 word"
  assumes "i < 64"
  shows "uint n div 2 ^ i = 2 * (uint n div 2 ^ Suc i) + of_bool (bit n i)"
proof -
  have "uint n div 2 ^ Suc i = uint n div 2 ^ i div 2"
    using div_exp_eq [of "uint n" i 1] by simp
  moreover have "bit (uint n) i = bit n i"
    using assms by (simp add: bit_uint_iff)
  then have "uint n div 2 ^ i mod 2 = of_bool (bit n i)"
    unfolding bit_iff_odd [of "uint n"] by (simp add: mod_2_eq_odd)
  ultimately show ?thesis
    by (metis mult_div_mod_eq)
qed

lemma div_step_inv:
  assumes i: "i < 31" and b: "0 < uint b" "uint b \<le> 2 ^ 30"
    and inv: "div_inv (uint n) (uint b) (Suc i) s"
  shows "div_inv (uint n) (uint b) i (div_step n b i s)"
proof -
  define N B X c where "N = uint n" and "B = uint b" and "X = N div 2 ^ Suc i"
    and "c = (of_bool (bit n i) :: int)"
  have c01: "c = 0 \<or> c = 1" by (simp add: c_def)
  have X0: "0 \<le> X" by (simp add: X_def N_def pos_imp_zdiv_nonneg_iff)
  have Ni: "N div 2 ^ i = 2 * X + c"
    unfolding N_def X_def c_def using i by (intro div_exp_bit) simp
  have r: "uint (rem s) = X mod B" and q: "uint (quo s) = X div B * 2 ^ Suc i"
    using inv by (simp_all add: div_inv_def N_def B_def X_def)
  have rb: "0 \<le> X mod B" "X mod B < B" using b by (simp_all add: B_def)
  then have r30: "uint (rem s) < 2 ^ 30" using r b(2) by (simp add: B_def)
  define r2 :: fixed where "r2 = 2 * rem s + of_bool (bit n i)"
  have r2u: "uint r2 = 2 * (X mod B) + c"
    unfolding r2_def c_def using uint_double_plus [OF r30] r by simp
  have r2eq: "(ucast ((scast (push_bit 1 (rem s)) :: 64 word)
      OR drop_bit i (n AND scast (shl_int 1 (int i)))) :: fixed) = r2"
    unfolding r2_def by (simp only: pulled_bit_small [OF i] or_bit_ucast)
  have qmask: "(scast (shl_int 1 (int i)) :: 64 word) = 2 ^ i"
    using i by (simp add: shl_int_nat scast_exp_small)
  have r231: "uint r2 < 2 ^ 31" using r2u rb b(2) c01 by (auto simp: B_def)
  have b31: "uint b < 2 ^ 31" using b(2) by simp
  have cmp: "b \<le>s r2 \<longleftrightarrow> B \<le> 2 * (X mod B) + c"
    using sle_nonneg [OF b31 r231] r2u by (simp add: B_def)
  have step: "div_step n b i s =
    (if B \<le> 2 * (X mod B) + c
     then \<lparr>rem = r2 - b, quo = quo s OR 2 ^ i, iters = Suc (iters s)\<rparr>
     else \<lparr>rem = r2, quo = quo s, iters = Suc (iters s)\<rparr>)"
    apply (simp only: div_step_def Let_def)
    apply (simp only: r2eq)
    apply (simp only: qmask cmp)
    done
  have B0: "0 < B" using b(1) by (simp add: B_def)
  show ?thesis
  proof (cases "B \<le> 2 * (X mod B) + c")
    case True
    note dm = divmod_step(1) [OF B0 X0 c01 True]
    have "uint b \<le> uint r2" using True r2u by (simp add: B_def)
    then have "uint (r2 - b) = uint r2 - uint b" by (simp add: uint_sub_lem)
    then have rem': "uint (r2 - b) = (2 * X + c) mod B"
      using dm r2u by (simp add: B_def)
    have "uint (quo s OR 2 ^ i) = uint (quo s) + 2 ^ i"
      using i q by (intro or_exp_uint [where k = "X div B"]) simp_all
    then have quo': "uint (quo s OR 2 ^ i) = (2 * X + c) div B * 2 ^ i"
      using dm q by (simp add: algebra_simps)
    show ?thesis
      using True rem' quo'
      by (simp add: div_inv_def step Ni flip: N_def B_def)
  next
    case False
    note dm = divmod_step(2) [OF B0 X0 c01 False]
    have "X div B * 2 ^ Suc i = 2 * (X div B) * 2 ^ i" by simp
    then show ?thesis
      using False dm r2u q
      by (simp add: div_inv_def step Ni flip: N_def B_def)
  qed
qed

lemma div_loop_inv:
  assumes "0 < uint b" "uint b \<le> 2 ^ 30"
  shows "k \<le> 31 \<Longrightarrow> div_inv (uint n) (uint b) k s \<Longrightarrow>
    div_inv (uint n) (uint b) 0 (div_loop n b k s)"
proof (induction k arbitrary: s)
  case 0
  then show ?case by simp
next
  case (Suc k)
  from Suc.prems have "k < 31" by simp
  then have "div_inv (uint n) (uint b) k (div_step n b k s)"
    using assms Suc.prems(2) by (rule div_step_inv)
  with Suc.IH [of "div_step n b k s"] Suc.prems(1) show ?case by simp
qed

lemma iters_div_step: "iters (div_step n b i s) = Suc (iters s)"
  by (simp add: div_step_def Let_def)

lemma iters_div_loop: "iters (div_loop n b k s) = iters s + k"
  by (induction k arbitrary: s) (simp_all add: iters_div_step)

subsection \<open>The iterations for bits 63 to 31\<close>

text \<open>
  For \<open>32 \<le> i\<close> the 32-bit mask \<^verbatim>\<open>1<<i\<close> selects a bit below \<open>i\<close> (or, for \<open>i = 63\<close>, the
  bits from 31 up), so with a numerator below \<open>2^63\<close> and a positive divisor the body
  changes neither remainder nor quotient.  For \<open>i = 31\<close> the mask is the most negative
  \<^verbatim>\<open>int\<close>; sign extended to 64 bits it selects every bit from 31 up, and the body loads
  all of them into the remainder at once.
\<close>

lemma pulled_bit_high:
  fixes n :: "64 word"
  assumes "32 \<le> i" "i < 64" "\<not> bit n 63"
  shows "drop_bit i (n AND scast (shl_int 1 (int i))) = 0"
proof (rule bit_eqI)
  fix m
  assume "possible_bit TYPE(64 word) m"
  have sh: "shl_int 1 (int i) = 2 ^ (i - 32)"
    using assms(1,2) by (simp add: shl_int_def nat_mod_distrib mod_if flip: of_nat_mod)
  have "\<not> (bit n (i + m) \<and> bit (scast (2 ^ (i - 32) :: fixed) :: 64 word) (i + m))"
  proof
    assume h: "bit n (i + m) \<and> bit (scast (2 ^ (i - 32) :: fixed) :: 64 word) (i + m)"
    then have lt: "i + m < 64" by (auto dest: bit_imp_le_length)
    from h have "bit (2 ^ (i - 32) :: fixed) (min 31 (i + m))"
      by (simp add: bit_simps)
    then have "min 31 (i + m) = i - 32"
      by (auto simp: bit_simps)
    with assms(1) have "i = 63" by (simp add: min_def split: if_splits)
    with lt have "i + m = 63" by simp
    with h assms(3) show False by simp
  qed
  then show "bit (drop_bit i (n AND scast (shl_int 1 (int i)))) m = bit (0 :: 64 word) m"
    by (simp add: sh bit_simps)
qed

lemma div_step_high:
  assumes "32 \<le> i" "i < 64" "\<not> bit n 63" "0 <s b"
  shows "div_step n b i \<lparr>rem = 0, quo = 0, iters = k\<rparr> = \<lparr>rem = 0, quo = 0, iters = Suc k\<rparr>"
proof -
  have "\<not> b \<le>s 0" using assms(4) by (simp add: word_sle_eq word_sless_alt)
  then show ?thesis
    apply (simp only: div_step_def Let_def)
    apply (simp only: pulled_bit_high [OF assms(1-3)])
    apply simp
    done
qed

lemma div_loop_high:
  assumes "\<not> bit n 63" "0 <s b"
  shows "j \<le> 32 \<Longrightarrow> div_loop n b (32 + j) \<lparr>rem = 0, quo = 0, iters = k\<rparr>
    = div_loop n b 32 \<lparr>rem = 0, quo = 0, iters = k + j\<rparr>"
proof (induction j arbitrary: k)
  case 0
  then show ?case by simp
next
  case (Suc j)
  have "div_step n b (32 + j) \<lparr>rem = 0, quo = 0, iters = k\<rparr> = \<lparr>rem = 0, quo = 0, iters = Suc k\<rparr>"
    using Suc.prems assms by (intro div_step_high) simp_all
  moreover have "32 + Suc j = Suc (32 + j)" by simp
  ultimately show ?case
    using Suc.IH [of "Suc k"] Suc.prems by (simp only: div_loop.simps) simp
qed

lemma scast_top_bit: "(scast (shl_int 1 (int 31)) :: 64 word) = push_bit 31 (- 1)"
proof (rule bit_eqI)
  fix k
  assume "possible_bit TYPE(64 word) k"
  then have k: "k < 64" by (simp add: possible_bit_def)
  have sh: "shl_int 1 (int 31) = push_bit 31 1"
    by (simp add: shl_int_def)
  have "bit (scast (push_bit 31 (1 :: fixed)) :: 64 word) k \<longleftrightarrow> 31 \<le> k"
    using k by (simp only: bit_signed_iff bit_push_bit_iff bit_1_iff possible_bit_def)
      (auto simp: min_def)
  moreover have "bit (push_bit 31 (- 1) :: 64 word) k \<longleftrightarrow> 31 \<le> k"
    using k by (simp only: bit_push_bit_iff bit_minus_1_iff possible_bit_def) auto
  ultimately show "bit (scast (shl_int 1 (int 31)) :: 64 word) k = bit (push_bit 31 (- 1) :: 64 word) k"
    by (simp only: sh)
qed

lemma pulled_bits_31:
  fixes n :: "64 word"
  shows "drop_bit 31 (n AND scast (shl_int 1 (int 31))) = drop_bit 31 n"
proof (rule bit_eqI)
  fix m
  assume "possible_bit TYPE(64 word) m"
  have "bit (push_bit 31 (- 1) :: 64 word) (31 + m)" if "bit n (31 + m)"
  proof -
    from that have "31 + m < 64" by (auto dest: bit_imp_le_length)
    then show ?thesis by (simp add: bit_simps)
  qed
  then show "bit (drop_bit 31 (n AND scast (shl_int 1 (int 31)))) m = bit (drop_bit 31 n) m"
    unfolding scast_top_bit by (auto simp: bit_drop_bit_eq bit_and_iff)
qed

lemma div_step_31:
  fixes n :: "64 word" and b :: fixed
  assumes "uint n div 2 ^ 31 < uint b" "uint b \<le> 2 ^ 30"
  shows "div_step n b 31 \<lparr>rem = 0, quo = 0, iters = k\<rparr>
    = \<lparr>rem = ucast (drop_bit 31 n), quo = 0, iters = Suc k\<rparr>"
    and "uint (ucast (drop_bit 31 n) :: fixed) = uint n div 2 ^ 31"
proof -
  define r2 :: fixed where "r2 = ucast (drop_bit 31 n)"
  have "uint (drop_bit 31 n) = drop_bit 31 (take_bit LENGTH(64) (uint n))"
    by (rule unsigned_drop_bit_eq)
  moreover have "take_bit LENGTH(64) (uint n) = uint n"
    using uint_lt2p [of n] by (intro take_bit_int_eq_self) simp_all
  ultimately have d: "uint (drop_bit 31 n) = uint n div 2 ^ 31"
    by (simp only: drop_bit_eq_div)
  have lt: "uint n div 2 ^ 31 < 2 ^ 30" using assms by simp
  have ge: "0 \<le> uint n div 2 ^ 31"
    by (simp add: pos_imp_zdiv_nonneg_iff)
  have "uint r2 = take_bit 32 (uint n div 2 ^ 31)"
    unfolding r2_def by (simp add: unsigned_ucast_eq d)
  also have "\<dots> = uint n div 2 ^ 31"
    using ge lt by (intro take_bit_int_eq_self) simp_all
  finally show u: "uint (ucast (drop_bit 31 n) :: fixed) = uint n div 2 ^ 31"
    by (simp add: r2_def)
  have "uint r2 < 2 ^ 31" "uint b < 2 ^ 31"
    using u lt assms(2) by (simp_all add: r2_def)
  then have cmp: "\<not> b \<le>s r2"
    using sle_nonneg [of b r2] u assms(1) by (simp add: r2_def)
  have r2eq: "(ucast ((scast (push_bit 1 (0 :: fixed)) :: 64 word)
      OR drop_bit 31 (n AND scast (shl_int 1 (int 31)))) :: fixed) = r2"
    unfolding r2_def by (simp only: pulled_bits_31) simp
  show "div_step n b 31 \<lparr>rem = 0, quo = 0, iters = k\<rparr>
    = \<lparr>rem = ucast (drop_bit 31 n), quo = 0, iters = Suc k\<rparr>"
    apply (simp only: div_step_def Let_def div_state.simps)
    apply (simp only: r2eq)
    apply (simp only: cmp if_False)
    apply (simp only: r2_def)
    done
qed

lemma div_loop_64:
  fixes n :: "64 word" and b :: fixed
  assumes n63: "uint n < 2 ^ 63" and b: "0 < uint b" "uint b \<le> 2 ^ 30"
    and fit: "uint n div 2 ^ 31 < uint b"
  shows "uint (quo (div_loop n b 64 \<lparr>rem = 0, quo = 0, iters = 0\<rparr>)) = uint n div uint b"
proof -
  have nb: "\<not> bit n 63"
  proof
    assume "bit n 63"
    then have "bit (uint n) 63" by (simp add: bit_uint_iff)
    moreover have "take_bit 63 (uint n) = uint n"
      using n63 by (intro take_bit_int_eq_self) simp_all
    ultimately have "bit (take_bit 63 (uint n)) 63" by simp
    then show False by (simp add: bit_take_bit_iff)
  qed
  have "sint b = uint b" using b(2) by (intro sint_eq_uint_small) simp
  then have bpos: "0 <s b" using b(1) by (simp add: word_sless_alt)
  define s31 where "s31 = \<lparr>rem = (ucast (drop_bit 31 n) :: fixed), quo = (0 :: 64 word), iters = Suc 32\<rparr>"
  have "div_loop n b (32 + 32) \<lparr>rem = 0, quo = 0, iters = 0\<rparr>
      = div_loop n b 32 \<lparr>rem = 0, quo = 0, iters = 0 + 32\<rparr>"
    using nb bpos by (rule div_loop_high) simp
  also have "\<dots> = div_loop n b (Suc 31) \<lparr>rem = 0, quo = 0, iters = 32\<rparr>"
    by simp
  also have "\<dots> = div_loop n b 31 s31"
    unfolding s31_def by (simp only: div_loop.simps div_step_31(1) [OF fit b(2)])
  finally have run: "div_loop n b 64 \<lparr>rem = 0, quo = 0, iters = 0\<rparr> = div_loop n b 31 s31"
    by simp
  have "div_inv (uint n) (uint b) 31 s31"
    using fit div_step_31(2) [OF fit b(2)]
    by (simp add: div_inv_def s31_def pos_imp_zdiv_nonneg_iff div_pos_pos_trivial mod_pos_pos_trivial)
  then have "div_inv (uint n) (uint b) 0 (div_loop n b 31 s31)"
    using b by (intro div_loop_inv) simp_all
  then show ?thesis
    by (simp add: run div_inv_def)
qed

lemma magnitude:
  fixes a :: fixed
  assumes "sint a \<noteq> - (2 ^ 31)"
  shows "uint (if a <s 0 then - a else a) = \<bar>sint a\<bar>"
proof (cases "a <s 0")
  case True
  then have neg: "sint a < 0" by (simp add: word_sless_alt)
  have "- (2 ^ (LENGTH(32) - 1)) \<le> sint a" by (rule sint_ge)
  with assms neg have r: "- (2 ^ 31) \<le> - sint a" "- sint a < 2 ^ 31" by simp_all
  have "sint (- a) = signed_take_bit (LENGTH(32) - 1) (- sint a)"
    by (simp add: sint_word_ariths)
  also have "\<dots> = - sint a"
    using r by (simp add: signed_take_bit_int_eq_self)
  finally have "sint (- a) = - sint a" .
  moreover from this neg have "uint (- a) = sint (- a)"
    by (intro uint_eq_sint_nonneg) simp
  ultimately show ?thesis using True neg by simp
next
  case False
  then have "0 \<le> sint a" by (simp add: word_sless_alt)
  then show ?thesis using False by (simp add: uint_eq_sint_nonneg)
qed

lemma numerator:
  fixes a1 :: fixed
  assumes "uint a1 < 2 ^ 31"
  shows "uint (push_bit 16 (scast a1 :: 64 word)) = uint a1 * 2 ^ 16"
proof -
  have "(scast a1 :: 64 word) = word_of_int (uint a1)"
    using sint_eq_uint_small [OF assms] by (simp add: scast_eq)
  then have "push_bit 16 (scast a1 :: 64 word) = word_of_int (uint a1 * 2 ^ 16)"
    by (simp add: push_bit_eq_mult)
  moreover have "take_bit 64 (uint a1 * 2 ^ 16) = uint a1 * 2 ^ 16"
    using assms by (intro take_bit_int_eq_self) simp_all
  ultimately show ?thesis
    by (simp only: uint_word_of_int_eq) simp
qed

lemma div_fixed_eq_spec:
  assumes a: "sint a \<noteq> - (2 ^ 31)" and b0: "b \<noteq> 0" and b30: "\<bar>sint b\<bar> \<le> 2 ^ 30"
    and fit: "\<bar>sint a\<bar> div 2 ^ 15 < \<bar>sint b\<bar>"
  shows "div_fixed a b = div_spec a b"
proof -
  define a1 b1 where "a1 = (if a <s 0 then - a else a)" and "b1 = (if b <s 0 then - b else b)"
  define sa sb :: fixed where "sa = (if a <s 0 then - 1 else 1)" and "sb = (if b <s 0 then - 1 else 1)"
  define n where "n = push_bit 16 (scast a1 :: 64 word)"
  define A B where "A = \<bar>sint a\<bar>" and "B = \<bar>sint b\<bar>"
  have run: "div_fixed_run a b = (sa * sb, div_loop n b1 64 \<lparr>rem = 0, quo = 0, iters = 0\<rparr>)"
    by (simp add: div_fixed_run_def a1_def b1_def sa_def sb_def n_def)
  have bmin: "sint b \<noteq> - (2 ^ 31)" using b30 by auto
  have ua: "uint a1 = A" unfolding a1_def A_def using a by (rule magnitude)
  have ub: "uint b1 = B" unfolding b1_def B_def using bmin by (rule magnitude)
  have "sint a < 2 ^ (LENGTH(32) - 1)" "- (2 ^ (LENGTH(32) - 1)) \<le> sint a"
    by (rule sint_lt, rule sint_ge)
  then have A31: "A < 2 ^ 31" using a by (simp add: A_def)
  have "sint b \<noteq> 0" using b0 by (simp add: signed_eq_0_iff)
  then have B0: "0 < B" by (simp add: B_def)
  have un: "uint n = A * 2 ^ 16"
    unfolding n_def using numerator [of a1] ua A31 by simp
  have "A * 2 ^ 16 < 2 ^ 31 * 2 ^ 16" using A31 by simp
  then have n63: "uint n < 2 ^ 63" using un by simp
  have "A * 2 ^ 16 div 2 ^ 31 = A div 2 ^ 15"
    using zdiv_zmult2_eq [of "2 ^ 16" "A * 2 ^ 16" "2 ^ 15"] by simp
  then have fit': "uint n div 2 ^ 31 < uint b1"
    using fit by (simp add: un ub A_def B_def)
  have q: "uint (quo (div_loop n b1 64 \<lparr>rem = 0, quo = 0, iters = 0\<rparr>)) = A * 2 ^ 16 div B"
    using div_loop_64 [OF n63 _ _ fit'] B0 b30 by (simp add: ub un B_def)
  have "div_fixed a b = sa * sb * ucast (quo (div_loop n b1 64 \<lparr>rem = 0, quo = 0, iters = 0\<rparr>))"
    by (simp add: div_fixed_def run)
  also have "\<dots> = sa * sb * word_of_int (A * 2 ^ 16 div B)"
    using q by (metis ucast_eq)
  finally have lhs: "div_fixed a b = sa * sb * word_of_int (A * 2 ^ 16 div B)" .
  have sb: "sb = word_of_int (sgn (sint b))"
    using \<open>sint b \<noteq> 0\<close> by (simp add: sb_def word_sless_alt sgn_if)
  show ?thesis
  proof (cases "sint a = 0")
    case True
    then show ?thesis by (simp add: lhs div_spec_def A_def)
  next
    case False
    then have "sa = word_of_int (sgn (sint a))"
      by (simp add: sa_def word_sless_alt sgn_if)
    then show ?thesis
      by (simp add: lhs sb div_spec_def A_def B_def)
  qed
qed

subsection \<open>Runs on concrete operands\<close>

lemma div_loop_numeral:
  "div_loop n b (numeral k) s = div_loop n b (pred_numeral k) (div_step n b (pred_numeral k) s)"
  by (simp add: numeral_eq_Suc)

lemmas div_eval = div_step_def shl_int_def Let_def div_loop_numeral word_sle_eq word_sless_alt

lemma div_one_eps: "div_fixed 0x10000 1 = - 1"
proof -
  have "div_fixed_run 0x10000 1 = (1, div_loop 0x100000000 1 64 \<lparr>rem = 0, quo = 0, iters = 0\<rparr>)"
    by (simp add: div_fixed_run_def word_sless_alt)
  moreover have "quo (div_loop 0x100000000 1 64 \<lparr>rem = 0, quo = 0, iters = 0\<rparr>) = - 1"
    by (simp add: div_eval)
  moreover have "(ucast (- 1 :: 64 word) :: fixed) = - 1"
    by (rule bit_eqI) (auto simp: bit_simps)
  ultimately show ?thesis
    by (simp add: div_fixed_def)
qed

lemma div_big_divisor: "div_fixed 0x50000000 0x60000000 = 0"
proof -
  have "div_fixed_run 0x50000000 0x60000000
      = (1, div_loop 0x500000000000 0x60000000 64 \<lparr>rem = 0, quo = 0, iters = 0\<rparr>)"
    by (simp add: div_fixed_run_def word_sless_alt)
  moreover have "quo (div_loop 0x500000000000 0x60000000 64 \<lparr>rem = 0, quo = 0, iters = 0\<rparr>) = 0"
    by (simp add: div_eval)
  ultimately show ?thesis
    by (simp add: div_fixed_def)
qed

lemma div_min_one: "div_fixed (- 0x80000000) FIXED_1 = - 0x8000"
proof -
  have "div_fixed_run (- 0x80000000) FIXED_1
      = (- 1, div_loop (- 0x800000000000) 0x10000 64 \<lparr>rem = 0, quo = 0, iters = 0\<rparr>)"
    by (simp add: div_fixed_run_def FIXED_1_def word_sless_alt)
  moreover have "quo (div_loop (- 0x800000000000) 0x10000 64 \<lparr>rem = 0, quo = 0, iters = 0\<rparr>) = 0x8000"
    by (simp add: div_eval)
  ultimately show ?thesis
    by (simp add: div_fixed_def)
qed

lemma mul_one_core:
  "(ucast (drop_bit 16 ((0x10000 :: 64 word) * scast (y :: fixed))) :: fixed) = y"
proof -
  have e: "(0x10000 :: 64 word) * scast y = push_bit 16 (scast y)"
    by (simp add: push_bit_eq_mult)
  show ?thesis
    unfolding e
  proof (rule bit_eqI)
    fix k
    assume "possible_bit TYPE(fixed) k"
    then have k: "k < 32" by (simp add: possible_bit_def)
    then have m: "min 31 k = k" by simp
    show "bit (ucast (drop_bit 16 (push_bit 16 (scast y :: 64 word))) :: fixed) k = bit y k"
      using k by (simp add: bit_simps m)
  qed
qed

lemma mul_fixed_one: "mul_fixed FIXED_1 x = x"
proof -
  have one: "\<not> FIXED_1 <s 0" "(scast FIXED_1 :: 64 word) = 0x10000"
    by (simp_all add: FIXED_1_def word_sless_alt)
  show ?thesis
    by (cases "x <s 0") (simp_all add: mul_fixed_def one mul_one_core)
qed

lemma div_fixed_one:
  assumes "sint x \<noteq> - (2 ^ 31)"
  shows "div_fixed x FIXED_1 = x"
proof -
  have s1: "sint FIXED_1 = 65536" "FIXED_1 \<noteq> 0" by (simp_all add: FIXED_1_def)
  have "sint x < 2 ^ (LENGTH(32) - 1)" "- (2 ^ (LENGTH(32) - 1)) \<le> sint x"
    by (rule sint_lt, rule sint_ge)
  then have "\<bar>sint x\<bar> < 2 ^ 31" using assms by simp
  then have "\<bar>sint x\<bar> div 2 ^ 15 < 65536" by simp
  then have "div_fixed x FIXED_1 = div_spec x FIXED_1"
    using assms s1 by (intro div_fixed_eq_spec) simp_all
  also have "\<dots> = word_of_int (sgn (sint x) * \<bar>sint x\<bar>)"
    by (simp add: div_spec_def s1)
  also have "\<dots> = x"
    by (simp add: mult_sgn_abs)
  finally show ?thesis .
qed

subsection \<open>The loop with its counter\<close>

text \<open>
  Started at \<open>k - 1\<close> the loop runs the bodies for \<open>i = k - 1, \<dots>, 0\<close> and is left when
  the counter reaches \<open>-1\<close>; started at 63 it runs 64 bodies.
\<close>

lemma div_for_unroll: "div_for n b (int k - 1) s = Some (div_loop n b k s)"
proof (induction k arbitrary: s)
  case 0
  show ?case by (subst div_for.simps) simp
next
  case (Suc k)
  have "div_for n b (int (Suc k) - 1) s = div_for n b (int k - 1) (div_step n b k s)"
    by (subst div_for.simps) simp
  then show ?case by (simp add: Suc.IH)
qed

lemma div_for_63: "div_for n b 63 s = Some (div_loop n b 64 s)"
  using div_for_unroll [of n b 64 s] by simp

lemma div_fixed_exec_eq: "div_fixed_exec a b = Some (div_fixed a b, 64)"
  by (cases "a <s 0"; cases "b <s 0")
     (simp_all add: div_fixed_exec_def div_fixed_def div_fixed_run_def div_for_63 iters_div_loop)

subsection \<open>A zero divisor\<close>

text \<open>
  With the divisor \<open>0\<close> the test \<^verbatim>\<open>r >= b\<close> holds whenever the remainder is not negative.
  For a numerator below \<open>2^63\<close> the bodies for \<open>i = 63, \<dots>, 32\<close> pull no bit, the
  remainder stays \<open>0\<close>, and their masks set bit 31 (for \<open>i = 63\<close>) and bits 30 to 0 of the
  quotient.  No later body clears a bit, so the low half of the quotient is all ones.
\<close>

lemma quo_ones_step:
  assumes "(ucast (quo s) :: fixed) = - 1"
  shows "(ucast (quo (div_step n b i s)) :: fixed) = - 1"
proof -
  have "(ucast (quo s OR m) :: fixed) = - 1" for m :: "64 word"
  proof -
    have "(ucast (quo s OR m) :: fixed) = ucast (quo s) OR ucast m"
      by (rule bit_eqI) (auto simp: bit_simps)
    then show ?thesis by (simp add: assms)
  qed
  then show ?thesis
    using assms by (simp add: div_step_def Let_def)
qed

lemma quo_ones_loop:
  "(ucast (quo s) :: fixed) = - 1 \<Longrightarrow> (ucast (quo (div_loop n b k s)) :: fixed) = - 1"
  by (induction k arbitrary: s) (simp_all add: quo_ones_step)

lemma not_bit_63:
  fixes n :: "64 word"
  assumes "uint n < 2 ^ 63"
  shows "\<not> bit n 63"
proof
  assume "bit n 63"
  then have "bit (uint n) 63" by (simp add: bit_uint_iff)
  moreover have "take_bit 63 (uint n) = uint n"
    using assms by (intro take_bit_int_eq_self) simp_all
  ultimately have "bit (take_bit 63 (uint n)) 63" by simp
  then show False by (simp add: bit_take_bit_iff)
qed

lemma div_step_high_zero:
  assumes j: "j < 32" and n: "\<not> bit n 63" and r: "rem s = 0"
    and q: "\<forall>m. Suc j \<le> m \<and> m < 32 \<longrightarrow> bit (quo s) m"
  shows "rem (div_step n 0 (32 + j) s) = 0
    \<and> (\<forall>m. j \<le> m \<and> m < 32 \<longrightarrow> bit (quo (div_step n 0 (32 + j) s)) m)"
proof -
  have p: "drop_bit (32 + j) (n AND scast (shl_int 1 (int (32 + j)))) = 0"
    using j n by (intro pulled_bit_high) simp_all
  have sh: "shl_int 1 (int (32 + j)) = 2 ^ j"
    using j by (simp add: shl_int_def nat_mod_distrib mod_if flip: of_nat_mod)
  have step: "div_step n 0 (32 + j) s
      = \<lparr>rem = 0, quo = quo s OR scast (2 ^ j :: fixed), iters = Suc (iters s)\<rparr>"
    apply (simp only: div_step_def Let_def p r)
    apply (simp only: sh)
    apply simp
    done
  have bj: "bit (scast (2 ^ j :: fixed) :: 64 word) j"
    using j by (simp add: bit_simps)
  have "bit (quo s OR scast (2 ^ j :: fixed)) m" if "j \<le> m" "m < 32" for m
  proof (cases "m = j")
    case True
    then show ?thesis using bj by (simp add: bit_or_iff)
  next
    case False
    then have "Suc j \<le> m" using that(1) by simp
    then have "bit (quo s) m" using q that(2) by simp
    then show ?thesis by (simp add: bit_or_iff)
  qed
  then show ?thesis
    by (simp add: step)
qed

lemma div_loop_high_zero:
  assumes n: "\<not> bit n 63"
  shows "j \<le> 32 \<Longrightarrow> rem s = 0 \<Longrightarrow> \<forall>m. j \<le> m \<and> m < 32 \<longrightarrow> bit (quo s) m
    \<Longrightarrow> (ucast (quo (div_loop n 0 (32 + j) s)) :: fixed) = - 1"
proof (induction j arbitrary: s)
  case 0
  have "(ucast (quo s) :: fixed) = - 1"
  proof (rule bit_eqI)
    fix k
    assume "possible_bit TYPE(fixed) k"
    then have "k < 32" by (simp add: possible_bit_def)
    with 0 show "bit (ucast (quo s) :: fixed) k = bit (- 1 :: fixed) k"
      by (simp add: bit_simps)
  qed
  then show ?case by (simp add: quo_ones_loop)
next
  case (Suc j)
  have "rem (div_step n 0 (32 + j) s) = 0
    \<and> (\<forall>m. j \<le> m \<and> m < 32 \<longrightarrow> bit (quo (div_step n 0 (32 + j) s)) m)"
    using Suc.prems n by (intro div_step_high_zero) simp_all
  then have "(ucast (quo (div_loop n 0 (32 + j) (div_step n 0 (32 + j) s))) :: fixed) = - 1"
    using Suc.prems by (intro Suc.IH) simp_all
  moreover have "32 + Suc j = Suc (32 + j)" by simp
  ultimately show ?case by (simp only: div_loop.simps)
qed

lemma div_min_zero: "div_fixed (- 0x80000000) 0 = 1"
proof -
  have "div_fixed_run (- 0x80000000) 0
      = (- 1, div_loop (- 0x800000000000) 0 64 \<lparr>rem = 0, quo = 0, iters = 0\<rparr>)"
    by (simp add: div_fixed_run_def word_sless_alt)
  moreover have "quo (div_loop (- 0x800000000000) 0 64 \<lparr>rem = 0, quo = 0, iters = 0\<rparr>) = - 1"
    by (simp add: div_eval)
  moreover have "(ucast (- 1 :: 64 word) :: fixed) = - 1"
    by (rule bit_eqI) (auto simp: bit_simps)
  ultimately show ?thesis
    by (simp add: div_fixed_def)
qed

lemma div_fixed_zero: "div_fixed a 0 = (if a <s 0 then 1 else - 1)"
proof (cases "sint a = - (2 ^ 31)")
  case True
  then have "sint a = sint (- 0x80000000 :: fixed)" by simp
  then have a: "a = - 0x80000000" by (rule signed_word_eqI)
  have "a <s 0" unfolding a by (simp add: word_sless_alt)
  then show ?thesis using div_min_zero by (simp add: a)
next
  case False
  define a1 where "a1 = (if a <s 0 then - a else a)"
  define sa :: fixed where "sa = (if a <s 0 then - 1 else 1)"
  define n where "n = push_bit 16 (scast a1 :: 64 word)"
  have run: "div_fixed_run a 0 = (sa, div_loop n 0 64 \<lparr>rem = 0, quo = 0, iters = 0\<rparr>)"
    by (simp add: div_fixed_run_def a1_def sa_def n_def)
  have ua: "uint a1 = \<bar>sint a\<bar>" unfolding a1_def using False by (rule magnitude)
  have "sint a < 2 ^ (LENGTH(32) - 1)" "- (2 ^ (LENGTH(32) - 1)) \<le> sint a"
    by (rule sint_lt, rule sint_ge)
  then have a31: "uint a1 < 2 ^ 31" using False ua by simp
  then have "uint n = uint a1 * 2 ^ 16"
    unfolding n_def by (rule numerator)
  moreover have "uint a1 * 2 ^ 16 < 2 ^ 31 * 2 ^ 16" using a31 by simp
  ultimately have "uint n < 2 ^ 63" by simp
  then have "\<not> bit n 63" by (rule not_bit_63)
  then have "(ucast (quo (div_loop n 0 (32 + 32) \<lparr>rem = 0, quo = 0, iters = 0\<rparr>)) :: fixed) = - 1"
    by (rule div_loop_high_zero) simp_all
  then have "(ucast (quo (div_loop n 0 64 \<lparr>rem = 0, quo = 0, iters = 0\<rparr>)) :: fixed) = - 1"
    by simp
  then show ?thesis
    by (simp add: div_fixed_def run sa_def)
qed

lemma div_spec_one: "div_spec x FIXED_1 = x"
proof -
  have "div_spec x FIXED_1 = word_of_int (sgn (sint x) * \<bar>sint x\<bar>)"
    by (simp add: div_spec_def FIXED_1_def)
  also have "\<dots> = x"
    by (simp add: mult_sgn_abs)
  finally show ?thesis .
qed

section \<open>Claims about the exact multiply and divide\<close>

text \<open>
  Claim C1.  For every pair \<open>(a, b)\<close> with \<open>b\<close> nonzero, \<open>div_fixed\<close> is to return the sign of
  \<open>a\<close> times the sign of \<open>b\<close> times the truncation to 32 bits of
  \<open>floor ((|a| << 16) / |b|)\<close>, by restoring division over bits 63 to 0 of the shifted
  dividend.  The code does not: at \<open>a = 0x10000\<close> (1.0), \<open>b = 1\<close> the body for \<open>i = 31\<close> loads
  bits 31 and up of the numerator into the remainder together, every later bit of the
  quotient is set and the result is \<open>-1\<close>, where the stated value is the truncation of
  \<open>2^32\<close>, which is \<open>0\<close>.  At \<open>a = 0x50000000\<close>, \<open>b = 0x60000000\<close> the 32-bit remainder
  wraps to a negative value when it is doubled, no quotient bit is set and the result is
  \<open>0\<close>, where the stated value is \<open>0xD555\<close>.
\<close>

theorem div_fixed_misses_spec:
  "div_fixed 0x10000 1 = - 1 \<and> div_spec 0x10000 1 = 0
   \<and> div_fixed 0x50000000 0x60000000 = 0 \<and> div_spec 0x50000000 0x60000000 = 0xD555"
proof (intro conjI)
  show "div_fixed 0x10000 1 = - 1"
    by (fact div_one_eps)
  show "div_spec 0x10000 1 = 0"
    by (simp add: div_spec_def)
  show "div_fixed 0x50000000 0x60000000 = 0"
    by (fact div_big_divisor)
  show "div_spec 0x50000000 0x60000000 = 0xD555"
    by (simp add: div_spec_def)
qed

text \<open>
  Claim C2.  For every representable \<open>x\<close>, \<open>mul_fixed FIXED_1 x\<close> and \<open>div_fixed x FIXED_1\<close>
  are to be \<open>x\<close>.  The multiply is, for every \<open>x\<close>; the stated quotient \<open>div_spec x FIXED_1\<close>
  is \<open>x\<close> for every \<open>x\<close> too.  The divide is not at the most negative value \<open>-2^31\<close>:
  its numerator has bits 47 to 63 set, the 32-bit mask \<^verbatim>\<open>1<<i\<close> pulls none of the bits 62
  to 47, and the call returns \<open>-0x8000\<close>.  At every other \<open>x\<close> the divide returns \<open>x\<close>
  (\<open>div_fixed_one\<close>).
\<close>

theorem div_identity_fails_at_min:
  "div_fixed (- 0x80000000) FIXED_1 = - 0x8000
   \<and> div_spec x FIXED_1 = x
   \<and> mul_fixed FIXED_1 x = x"
proof (intro conjI)
  show "div_fixed (- 0x80000000) FIXED_1 = - 0x8000"
    by (fact div_min_one)
  show "div_spec x FIXED_1 = x"
    by (rule div_spec_one)
  show "mul_fixed FIXED_1 x = x"
    by (rule mul_fixed_one)
qed

text \<open>
  Claim C10.  For every pair \<open>(a, b)\<close> the loop of \<open>div_fixed\<close> is left after exactly 64
  bodies and the call returns a value, the one \<open>div_fixed a b\<close> denotes.  A zero divisor
  takes the same path and gives an ordinary value: \<open>-1\<close> for a dividend that is not
  negative and \<open>1\<close> for a negative one.
\<close>

theorem div_fixed_returns:
  "div_fixed_exec a b = Some (div_fixed a b, 64)
   \<and> div_fixed_exec a 0 = Some (if a <s 0 then 1 else - 1, 64)"
proof
  show "div_fixed_exec a b = Some (div_fixed a b, 64)"
    by (rule div_fixed_exec_eq)
  have "div_fixed_exec a 0 = Some (div_fixed a 0, 64)"
    by (rule div_fixed_exec_eq)
  then show "div_fixed_exec a 0 = Some (if a <s 0 then 1 else - 1, 64)"
    by (simp only: div_fixed_zero)
qed

section \<open>The scale of a positive value\<close>

lemma uint_top_bit_split:
  fixes f :: fixed
  assumes "uint f < 2 ^ Suc n"
  shows "uint f = 2 ^ n * of_bool (bit f n) + take_bit n (uint f)"
proof -
  have "take_bit (Suc n) (uint f) = uint f"
    using assms by (simp add: take_bit_int_eq_self)
  then have "uint f = 2 ^ n * of_bool (bit (uint f) n) + take_bit n (uint f)"
    by (simp add: take_bit_Suc_from_most)
  moreover have "bit (uint f) n = bit f n"
    by (auto simp: bit_uint_iff dest: bit_imp_le_length)
  ultimately show ?thesis
    by (simp only:)
qed

lemma bit_set_bounds:
  fixes f :: fixed
  assumes "uint f < 2 ^ Suc n" "bit f n"
  shows "2 ^ n \<le> uint f"
proof -
  have "0 \<le> take_bit n (uint f)" by simp
  moreover have "uint f = 2 ^ n + take_bit n (uint f)"
    using uint_top_bit_split [OF assms(1)] assms(2) by simp
  ultimately show ?thesis by linarith
qed

lemma bit_clear_bounds:
  fixes f :: fixed
  assumes "uint f < 2 ^ Suc n" "\<not> bit f n"
  shows "uint f < 2 ^ n"
proof -
  have "uint f = take_bit n (uint f)"
    using uint_top_bit_split [OF assms(1)] assms(2) by simp
  moreover have "take_bit n (uint f) < 2 ^ n" by simp
  ultimately show ?thesis by simp
qed

lemma get_scale_loop_bounds:
  "0 < uint f \<Longrightarrow> uint f < 2 ^ nat (scale + 16) \<Longrightarrow> - 16 \<le> scale \<Longrightarrow> scale \<le> 15 \<Longrightarrow>
   - 15 \<le> get_scale_loop f scale \<and> get_scale_loop f scale \<le> scale
   \<and> 2 ^ nat (get_scale_loop f scale + 15) \<le> uint f
   \<and> uint f < 2 ^ nat (get_scale_loop f scale + 16)"
proof (induction f scale rule: get_scale_loop.induct)
  case (1 f scale)
  show ?case
  proof (cases "scale > - 16")
    case False
    with "1.prems" have "scale = - 16" by simp
    with "1.prems" show ?thesis by simp
  next
    case True
    define n where "n = nat (scale + 15)"
    have n: "nat (scale + 16) = Suc n" "nat (scale + 15) = n"
      using True "1.prems" by (simp_all add: n_def)
    have "shl_int 1 (scale + 15) = 2 ^ nat (scale + 15)"
      using True "1.prems" by (intro shl_int_1_small) simp_all
    then have sh: "shl_int 1 (scale + 15) = 2 ^ n"
      by (simp only: n)
    have lt: "uint f < 2 ^ Suc n" using "1.prems"(2) by (simp only: n)
    show ?thesis
    proof (cases "bit f n")
      case True
      then have "f AND shl_int 1 (scale + 15) \<noteq> 0"
        by (simp add: sh and_exp_eq_0_iff_not_bit)
      then have eq: "get_scale_loop f scale = scale"
        using \<open>scale > - 16\<close> by (subst get_scale_loop.simps) simp
      have "2 ^ n \<le> uint f" using lt True by (rule bit_set_bounds)
      then show ?thesis
        using lt \<open>scale > - 16\<close> unfolding eq n by simp
    next
      case False
      then have z: "\<not> f AND shl_int 1 (scale + 15) \<noteq> 0"
        by (simp add: sh and_exp_eq_0_iff_not_bit)
      then have eq: "get_scale_loop f scale = get_scale_loop f (scale - 1)"
        using \<open>scale > - 16\<close> by (subst get_scale_loop.simps) simp
      have "uint f < 2 ^ n" using lt False by (rule bit_clear_bounds)
      moreover have "nat (scale - 1 + 16) = n"
        using n(2) by simp
      ultimately have p2: "uint f < 2 ^ nat (scale - 1 + 16)"
        by (simp only:)
      have p3: "- 16 \<le> scale - 1" and p4: "scale - 1 \<le> 15"
        using \<open>scale > - 16\<close> "1.prems" by simp_all
      note ih = "1.IH" [OF \<open>scale > - 16\<close> z "1.prems"(1) p2 p3 p4]
      from ih have "get_scale_loop f (scale - 1) \<le> scale" by linarith
      with ih show ?thesis
        unfolding eq by blast
    qed
  qed
qed

lemma pos_uint_sint:
  fixes f :: fixed
  assumes "0 <s f"
  shows "uint f = sint f" "0 < uint f" "uint f < 2 ^ 31"
proof -
  have p: "0 < sint f" using assms by (simp add: word_sless_alt)
  then show e: "uint f = sint f" by (simp add: uint_eq_sint_nonneg)
  show "0 < uint f" using p e by simp
  have "sint f < 2 ^ (LENGTH(32) - 1)" by (rule sint_lt)
  then show "uint f < 2 ^ 31" using e by simp
qed

lemma get_scale_int_bounds:
  assumes "0 <s f"
  shows "- 15 \<le> get_scale f \<and> get_scale f \<le> 15
    \<and> 2 ^ nat (get_scale f + 15) \<le> sint f \<and> sint f < 2 ^ nat (get_scale f + 16)"
proof -
  have "uint f < 2 ^ nat (15 + 16)"
    using pos_uint_sint(3) [OF assms] by simp
  from get_scale_loop_bounds [OF pos_uint_sint(2) [OF assms] this]
  show ?thesis
    by (simp add: get_scale_def pos_uint_sint(1) [OF assms])
qed

lemma powi_shift:
  "(2::real) powi (int k - 16) = 2 ^ k / 65536"
proof -
  have "(2::real) powi (int k - 16) = 2 powi int k / 2 powi 16"
    by (rule power_int_diff) simp
  then show ?thesis by simp
qed

lemma get_scale_one: "get_scale FIXED_1 = 1"
  by (simp add: FIXED_1_def get_scale_def get_scale_loop.simps shl_int_def)

text \<open>
  Claim C7.  For every positive \<open>f\<close>, \<open>get_scale f\<close> is the integer \<open>s\<close> with the value
  \<open>f / 65536\<close> in \<open>[2^(s-1), 2^s)\<close>: one more than the exponent of the leading bit.  The
  callers subtract the one again (\<^verbatim>\<open>int div = get_scale(f)-1;\<close>).
\<close>

theorem get_scale_exponent:
  assumes "0 <s f"
  shows "2 powi (get_scale f - 1) \<le> fixed_value f \<and> fixed_value f < 2 powi (get_scale f)"
proof -
  note b = get_scale_int_bounds [OF assms]
  from b have lo: "(2::real) ^ nat (get_scale f + 15) \<le> real_of_int (sint f)"
    by (metis of_int_le_iff of_int_numeral of_int_power)
  from b have hi: "real_of_int (sint f) < 2 ^ nat (get_scale f + 16)"
    by (metis of_int_less_iff of_int_numeral of_int_power)
  from b have "get_scale f - 1 = int (nat (get_scale f + 15)) - 16"
    and "get_scale f = int (nat (get_scale f + 16)) - 16" by simp_all
  then have "(2::real) powi (get_scale f - 1) = 2 ^ nat (get_scale f + 15) / 65536"
    and "(2::real) powi (get_scale f) = 2 ^ nat (get_scale f + 16) / 65536"
    using powi_shift by metis+
  then show ?thesis
    unfolding fixed_value_def
    using lo hi by (simp add: divide_le_cancel divide_less_cancel)
qed

theorem get_scale_exponent_witness:
  "0 <s FIXED_1 \<and> 2 powi (get_scale FIXED_1 - 1) \<le> fixed_value FIXED_1
     \<and> fixed_value FIXED_1 < 2 powi (get_scale FIXED_1)"
proof -
  have h: "0 <s FIXED_1" by (simp add: FIXED_1_def word_sless_alt)
  show ?thesis using h get_scale_exponent [OF h] by simp
qed

text \<open>
  The claim as stated puts the value in \<open>[2^s, 2^(s+1))\<close>.  At \<open>FIXED_1\<close>, the value 1.0,
  \<open>get_scale\<close> returns 1, and 1.0 is not in \<open>[2, 4)\<close>.
\<close>

theorem get_scale_counterexample:
  "\<not> (2 powi (get_scale FIXED_1) \<le> fixed_value FIXED_1
       \<and> fixed_value FIXED_1 < 2 powi (get_scale FIXED_1 + 1))"
  unfolding get_scale_one by (simp add: fixed_value_def FIXED_1_def)

section \<open>Square root and logarithm\<close>

text \<open>
  Claim C3.  For a positive input other than one, the square root is to normalise the
  input into \<open>[1,2)\<close>, refine a linear seed by two steps \<open>r \<leftarrow> (r + f/r)/2\<close>, and multiply
  back \<open>2^(scale/2)\<close> and, for an odd scale, the constant for the square root of two.  The
  loop body of \<open>sqrt_NR_fixed\<close> multiplies by \<^verbatim>\<open>INT_TO_FIX(2)\<close> where the refinement halves.
  At 4.0 the input normalises to 1.0 with scale 2 and seed 1.0, the two steps give
  \<open>2 * (1 + 1) = 4\<close> and \<open>2 * (4 + 1/4) = 8.5\<close>, and the result is \<open>2 * 8.5 = 17.0\<close>, where two
  halving steps leave the seed at 1.0 and give 2.0.
\<close>

theorem sqrt_of_four:
  "sqrt_NR_fixed 0x10000 2 = 0x88000 \<and> sqrt_fast_fixed 0x40000 = 0x110000"
proof -
  have gs: "get_scale 0x40000 = 3"
    by (simp add: get_scale_def get_scale_loop.simps shl_int_def)
  have d1: "div_fixed 0x40000 0x40000 = 0x10000"
    by (subst div_fixed_eq_spec) (simp_all add: div_spec_def)
  have d2: "div_fixed 0x10000 0x10000 = 0x10000"
    by (subst div_fixed_eq_spec) (simp_all add: div_spec_def)
  have d3: "div_fixed 0x10000 0x40000 = 0x4000"
    by (subst div_fixed_eq_spec) (simp_all add: div_spec_def)
  have m1: "mul_fixed 0x10000 0x20000 = 0x20000"
    and m2: "mul_fixed 0x20000 0x20000 = 0x40000"
    and m3: "mul_fixed 0x20000 0x44000 = 0x88000"
    and m4: "mul_fixed 0x20000 0x88000 = 0x110000"
    by (simp_all add: mul_fixed_def word_sless_alt)
  have nr: "sqrt_NR_fixed 0x10000 2 = 0x88000"
    by (simp add: sqrt_NR_fixed_def FIXED_1_def INT_TO_FIX_def numeral_2_eq_2 d2 d3 m2 m3)
  have "sqrt_fast_fixed 0x40000 = 0x110000"
    by (simp add: sqrt_fast_fixed_def FIXED_1_def word_sless_alt gs shl_int_def d1 m1 nr m4 Let_def)
  with nr show ?thesis by simp
qed

text \<open>
  Claim C5.  For every \<open>f < 0\<close>, \<open>sqrt_fast_fixed\<close> returns the sentinel \<open>-INT_MAX\<close>, the
  negative value of the largest representable magnitude \<open>2^31 - 1\<close>; for every \<open>f \<le> 0\<close>,
  \<open>ln_fast_fixed\<close> returns that same sentinel; \<open>sqrt_fast_fixed\<close> returns exactly \<open>0\<close> for
  input \<open>0\<close> and exactly \<open>FIXED_1\<close> for input \<open>FIXED_1\<close>.
\<close>

theorem sentinel_results:
  "(f <s 0 \<longrightarrow> sqrt_fast_fixed f = - INT_MAX \<and> sint (sqrt_fast_fixed f) = - (2 ^ 31 - 1))
   \<and> (g \<le>s 0 \<longrightarrow> ln_fast_fixed g = - INT_MAX \<and> ln_fast_fixed g = sqrt_fast_fixed (- 1))
   \<and> sqrt_fast_fixed 0 = 0
   \<and> sqrt_fast_fixed FIXED_1 = FIXED_1"
proof -
  have neg: "f <s 0 \<Longrightarrow> f \<noteq> 0" for f :: fixed
    by (auto simp: word_sless_alt)
  have one: "\<not> FIXED_1 <s 0" "FIXED_1 \<noteq> 0"
    by (simp_all add: FIXED_1_def word_sless_alt)
  have m1: "(- 1 :: fixed) <s 0" "(- 1 :: fixed) \<noteq> 0"
    by (simp_all add: word_sless_alt)
  have v: "sint (- INT_MAX) = - (2 ^ 31 - 1)"
    by (simp add: INT_MAX_def)
  show ?thesis
    using one m1 v by (auto simp: sqrt_fast_fixed_def ln_fast_fixed_def dest: neg)
qed

theorem sentinel_results_witness:
  "((- 5 :: fixed) <s 0 \<and> sqrt_fast_fixed (- 5) = - INT_MAX)
   \<and> ((0 :: fixed) \<le>s 0 \<and> ln_fast_fixed 0 = - INT_MAX)"
  using sentinel_results [of "- 5" 0] by (simp add: word_sless_alt word_sle_eq)

section \<open>Sine\<close>

text \<open>
  The reduction loop changes \<open>f\<close> only when \<open>f\<close> exceeds \<open>FIXED_2PI\<close> or is negative.  At a
  value that fails the loop test and is neither, the body does nothing and the loop
  never ends.
\<close>

lemma sin_reduce_stuck:
  assumes "\<not> (0 <s x \<and> x <s FIXED_2PI)" "\<not> FIXED_2PI <s x" "\<not> x <s 0"
  shows "sin_reduce x = None"
proof (rule ccontr)
  assume "sin_reduce x \<noteq> None"
  then obtain y where y: "sin_reduce x = Some y" by auto
  have "x \<noteq> x"
  proof (rule sin_reduce.raw_induct [where P = "\<lambda>z y. z \<noteq> x" and f = x and y = y])
    fix sr :: "fixed \<Rightarrow> fixed option" and z y :: fixed
    assume IH: "\<And>z y. sr z = Some y \<Longrightarrow> z \<noteq> x"
      and step: "(if \<not> (0 <s z \<and> z <s FIXED_2PI)
         then sr (if FIXED_2PI <s z then z - FIXED_2PI else if z <s 0 then z + FIXED_2PI else z)
         else Some z) = Some y"
    show "z \<noteq> x"
    proof
      assume "z = x"
      with step assms have "sr x = Some y" by simp
      with IH show False by blast
    qed
  next
    show "sin_reduce x = Some y" by (fact y)
  qed
  then show False by simp
qed

text \<open>
  A value at which the body of \<open>sin_fixed\<close> is the call of \<open>sin_fixed\<close> on the same value
  never returns.
\<close>

lemma sin_fixed_fixpoint_None:
  assumes "\<And>sf. (if 0 <s x \<and> x <s FIXED_PIBY2 then Some (sin_series x)
     else if FIXED_PIBY2 <s x \<and> x <s FIXED_PI then sf (FIXED_PI - x)
     else if FIXED_PI <s x \<and> x <s FIXED_3PIBY2
       then Option.bind (sf (x - FIXED_PI)) (\<lambda>v. Some (- v))
     else if FIXED_3PIBY2 <s x \<and> x <s FIXED_2PI
       then Option.bind (sf (FIXED_2PI - x)) (\<lambda>v. Some (- v))
     else Option.bind (sin_reduce x) sf) = sf x"
  shows "sin_fixed x = None"
proof (rule ccontr)
  assume "sin_fixed x \<noteq> None"
  then obtain y where y: "sin_fixed x = Some y" by auto
  have "x \<noteq> x"
  proof (rule sin_fixed.raw_induct [where P = "\<lambda>z y. z \<noteq> x" and f = x and y = y])
    fix sf :: "fixed \<Rightarrow> fixed option" and f y :: fixed
    assume IH: "\<And>z y. sf z = Some y \<Longrightarrow> z \<noteq> x"
      and step: "(if 0 <s f \<and> f <s FIXED_PIBY2 then Some (sin_series f)
        else if FIXED_PIBY2 <s f \<and> f <s FIXED_PI then sf (FIXED_PI - f)
        else if FIXED_PI <s f \<and> f <s FIXED_3PIBY2
          then Option.bind (sf (f - FIXED_PI)) (\<lambda>v. Some (- v))
        else if FIXED_3PIBY2 <s f \<and> f <s FIXED_2PI
          then Option.bind (sf (FIXED_2PI - f)) (\<lambda>v. Some (- v))
        else Option.bind (sin_reduce f) sf) = Some y"
    show "f \<noteq> x"
    proof
      assume "f = x"
      then have "sf x = Some y"
        using step unfolding assms [of sf, symmetric] by (simp only:)
      with IH show False by blast
    qed
  next
    show "sin_fixed x = Some y" by (fact y)
  qed
  then show False by simp
qed

lemma sin_reduce_in_range: "0 <s f \<Longrightarrow> f <s FIXED_2PI \<Longrightarrow> sin_reduce f = Some f"
  by (subst sin_reduce.simps) simp

lemmas quadrant_defs = FIXED_PI_def FIXED_PIBY2_def FIXED_3PIBY2_def FIXED_2PI_def

text \<open>
  Strictly inside a quadrant the function returns: the reflected argument lies strictly
  inside the first quadrant, where the series applies.
\<close>

lemma sint_sub_small:
  fixes x y :: fixed
  assumes "- (2 ^ 31) \<le> sint x - sint y" "sint x - sint y < 2 ^ 31"
  shows "sint (x - y) = sint x - sint y"
proof -
  have "sint (x - y) = signed_take_bit (LENGTH(32) - 1) (sint x - sint y)"
    by (simp add: sint_word_ariths)
  then show ?thesis
    using assms by (simp add: signed_take_bit_int_eq_self)
qed

lemma sin_fixed_first:
  "0 <s f \<Longrightarrow> f <s FIXED_PIBY2 \<Longrightarrow> sin_fixed f = Some (sin_series f)"
  by (subst sin_fixed.simps) simp

lemma sin_fixed_second:
  assumes "FIXED_PIBY2 <s f" "f <s FIXED_PI"
  shows "sin_fixed f = Some (sin_series (FIXED_PI - f))"
proof -
  have r: "0x19220 < sint f" "sint f < 0x3243F"
    using assms by (simp_all add: word_sless_alt quadrant_defs)
  then have "sint (FIXED_PI - f) = 0x3243F - sint f"
    using sint_sub_small [of FIXED_PI f] by (simp add: FIXED_PI_def)
  with r have "0 <s FIXED_PI - f" "FIXED_PI - f <s FIXED_PIBY2"
    by (simp_all add: word_sless_alt FIXED_PIBY2_def)
  then have rec: "sin_fixed (FIXED_PI - f) = Some (sin_series (FIXED_PI - f))"
    by (rule sin_fixed_first)
  have c: "\<not> f <s FIXED_PIBY2"
    using r by (simp add: word_sless_alt quadrant_defs)
  show ?thesis
    by (subst sin_fixed.simps) (simp add: c assms rec)
qed

lemma sin_fixed_third:
  assumes "FIXED_PI <s f" "f <s FIXED_3PIBY2"
  shows "sin_fixed f = Some (- sin_series (f - FIXED_PI))"
proof -
  have r: "0x3243F < sint f" "sint f < 0x4B65F"
    using assms by (simp_all add: word_sless_alt quadrant_defs)
  then have "sint (f - FIXED_PI) = sint f - 0x3243F"
    using sint_sub_small [of f FIXED_PI] by (simp add: FIXED_PI_def)
  with r have "0 <s f - FIXED_PI" "f - FIXED_PI <s FIXED_PIBY2"
    by (simp_all add: word_sless_alt FIXED_PIBY2_def)
  then have rec: "sin_fixed (f - FIXED_PI) = Some (sin_series (f - FIXED_PI))"
    by (rule sin_fixed_first)
  have c: "\<not> f <s FIXED_PIBY2" "\<not> f <s FIXED_PI"
    using r by (simp_all add: word_sless_alt quadrant_defs)
  show ?thesis
    by (subst sin_fixed.simps) (simp add: c assms rec)
qed

lemma sin_fixed_fourth:
  assumes "FIXED_3PIBY2 <s f" "f <s FIXED_2PI"
  shows "sin_fixed f = Some (- sin_series (FIXED_2PI - f))"
proof -
  have r: "0x4B65F < sint f" "sint f < 0x6487F"
    using assms by (simp_all add: word_sless_alt quadrant_defs)
  then have "sint (FIXED_2PI - f) = 0x6487F - sint f"
    using sint_sub_small [of FIXED_2PI f] by (simp add: FIXED_2PI_def)
  with r have "0 <s FIXED_2PI - f" "FIXED_2PI - f <s FIXED_PIBY2"
    by (simp_all add: word_sless_alt FIXED_PIBY2_def)
  then have rec: "sin_fixed (FIXED_2PI - f) = Some (sin_series (FIXED_2PI - f))"
    by (rule sin_fixed_first)
  have c: "\<not> f <s FIXED_PIBY2" "\<not> f <s FIXED_PI" "\<not> f <s FIXED_3PIBY2"
    using r by (simp_all add: word_sless_alt quadrant_defs)
  show ?thesis
    by (subst sin_fixed.simps) (simp add: c assms rec)
qed

lemma sin_fixed_returns:
  assumes "0 <s f" "f <s FIXED_2PI" "f \<noteq> FIXED_PIBY2" "f \<noteq> FIXED_PI" "f \<noteq> FIXED_3PIBY2"
  shows "\<exists>v. sin_fixed f = Some v"
proof -
  have ne: "x <s y \<or> y <s x" if "x \<noteq> y" for x y :: fixed
  proof -
    from that have "sint x \<noteq> sint y" by (metis signed_word_eqI)
    then show ?thesis by (auto simp: word_sless_alt)
  qed
  from ne [OF assms(3)] ne [OF assms(4)] ne [OF assms(5)]
  consider "f <s FIXED_PIBY2" | "FIXED_PIBY2 <s f" "f <s FIXED_PI"
    | "FIXED_PI <s f" "f <s FIXED_3PIBY2" | "FIXED_3PIBY2 <s f"
    by blast
  then show ?thesis
  proof cases
    case 1 with assms(1) show ?thesis by (simp add: sin_fixed_first)
  next
    case 2 then show ?thesis by (simp add: sin_fixed_second)
  next
    case 3 then show ?thesis by (simp add: sin_fixed_third)
  next
    case 4 with assms(2) show ?thesis by (simp add: sin_fixed_fourth)
  qed
qed

text \<open>
  Claim C4.  \<open>sin_fixed\<close> is to terminate for every argument, the quadrant boundaries
  included.  It does not: at \<open>0\<close> and at \<open>FIXED_2PI\<close> the reduction loop neither adds nor
  subtracts and runs for ever, and at \<open>FIXED_3PIBY2\<close> no branch applies, the loop is
  skipped and the function calls itself on the same argument.  Strictly inside the
  four quadrants it does return (\<open>sin_fixed_returns\<close>).
\<close>

theorem sin_fixed_diverges_at_zero:
  "sin_fixed 0 = None \<and> sin_fixed FIXED_2PI = None \<and> sin_fixed FIXED_3PIBY2 = None"
proof (intro conjI)
  have "sin_reduce 0 = None"
    by (rule sin_reduce_stuck) (simp_all add: word_sless_alt quadrant_defs)
  then show "sin_fixed 0 = None"
    by (subst sin_fixed.simps) (simp add: word_sless_alt quadrant_defs)
  have "sin_reduce FIXED_2PI = None"
    by (rule sin_reduce_stuck) (simp_all add: word_sless_alt quadrant_defs)
  then show "sin_fixed FIXED_2PI = None"
    by (subst sin_fixed.simps) (simp add: word_sless_alt quadrant_defs)
  show "sin_fixed FIXED_3PIBY2 = None"
    by (rule sin_fixed_fixpoint_None)
       (simp add: sin_reduce_in_range word_sless_alt quadrant_defs)
qed

text \<open>
  Claim C9.  \<open>sin_fixed FIXED_PIBY2\<close> is to be close to \<open>FIXED_1\<close> and \<open>sin_fixed FIXED_PI\<close>
  close to \<open>0\<close>.  Neither call returns: each argument fails every strict quadrant test,
  passes the loop test, and is handed to \<open>sin_fixed\<close> again unchanged.
\<close>

theorem sin_fixed_diverges_at_quadrants:
  "sin_fixed FIXED_PIBY2 = None \<and> sin_fixed FIXED_PI = None"
proof
  show "sin_fixed FIXED_PIBY2 = None"
    by (rule sin_fixed_fixpoint_None)
       (simp add: sin_reduce_in_range word_sless_alt quadrant_defs)
  show "sin_fixed FIXED_PI = None"
    by (rule sin_fixed_fixpoint_None)
       (simp add: sin_reduce_in_range word_sless_alt quadrant_defs)
qed

section \<open>The sentinel of the fast divide\<close>

lemma sint_shl8:
  fixes a :: fixed
  assumes "- (2 ^ 23) \<le> sint a" "sint a < 2 ^ 23"
  shows "sint (push_bit 8 a) = sint a * 256"
proof -
  have "sint (a * 256) = signed_take_bit (LENGTH(32) - 1) (sint a * sint (256 :: fixed))"
    by (rule sint_word_mult)
  moreover have "signed_take_bit 31 (sint a * 256) = sint a * 256"
    using assms by (intro signed_take_bit_int_eq_self) simp_all
  ultimately show ?thesis
    by (simp add: push_bit_eq_mult)
qed

text \<open>
  Claim C8.  For every dividend \<open>a\<close> and every divisor \<open>b\<close> with \<open>b >> 8 = 0\<close>,
  \<open>div_fast_fixed\<close> returns \<open>INT_MAX\<close> when \<open>a << 8\<close>, wrapped to 32 bits, is positive and
  \<open>-INT_MAX\<close> otherwise; for \<open>-2^23 \<le> a < 2^23\<close>, where the shift does not overflow, that
  is \<open>INT_MAX\<close> for a positive and \<open>-INT_MAX\<close> for a negative dividend.
\<close>

theorem div_fast_sentinel:
  assumes "signed_drop_bit 8 b = 0"
  shows "div_fast_fixed a b = Some (if 0 <s push_bit 8 a then INT_MAX else - INT_MAX)
    \<and> (- (2 ^ 23) \<le> sint a \<and> sint a < 2 ^ 23 \<longrightarrow>
         (0 <s a \<longrightarrow> div_fast_fixed a b = Some INT_MAX)
       \<and> (a <s 0 \<longrightarrow> div_fast_fixed a b = Some (- INT_MAX)))"
proof -
  have "div_fast_fixed a b = Some (if 0 <s push_bit 8 a then INT_MAX else - INT_MAX)"
    using assms by (simp add: div_fast_fixed_def)
  moreover have "0 <s push_bit 8 a \<longleftrightarrow> 0 <s a" if "- (2 ^ 23) \<le> sint a" "sint a < 2 ^ 23"
    using sint_shl8 [OF that] by (simp add: word_sless_alt)
  ultimately show ?thesis
    by (auto simp: word_sless_alt)
qed

theorem div_fast_sentinel_witness:
  "signed_drop_bit 8 (0x80 :: fixed) = 0
   \<and> div_fast_fixed 0x30000 0x80 = Some INT_MAX
   \<and> div_fast_fixed (- 0x30000) 0x80 = Some (- INT_MAX)"
proof -
  have h: "signed_drop_bit 8 (0x80 :: fixed) = 0" by simp
  have p: "- (2 ^ 23) \<le> sint (0x30000 :: fixed) \<and> sint (0x30000 :: fixed) < 2 ^ 23"
    "(0 :: fixed) <s 0x30000"
    by (simp_all add: word_sless_alt)
  have n: "- (2 ^ 23) \<le> sint (- 0x30000 :: fixed) \<and> sint (- 0x30000 :: fixed) < 2 ^ 23"
    "(- 0x30000 :: fixed) <s 0"
    by (simp_all add: word_sless_alt)
  show ?thesis
    using h p n div_fast_sentinel [OF h, of "0x30000"] div_fast_sentinel [OF h, of "- 0x30000"]
    by blast
qed

text \<open>
  The claim as stated lets the dividend's sign decide for every dividend.  At the
  positive dividend \<open>0x800000\<close> (128.0) the shifted value wraps to the most negative
  \<^verbatim>\<open>int\<close> and the result is \<open>-INT_MAX\<close>.
\<close>

theorem div_fast_sentinel_counterexample:
  "signed_drop_bit 8 (0 :: fixed) = 0 \<and> (0 :: fixed) <s 0x800000
   \<and> div_fast_fixed 0x800000 0 \<noteq> Some INT_MAX"
  by (simp add: div_fast_fixed_def word_sless_alt INT_MAX_def)

section \<open>Decimal rendering\<close>

lemma dec_loop_numeral:
  "dec_loop f (numeral k) s = dec_loop f (pred_numeral k) (dec_step f (pred_numeral k) s)"
  by (simp add: numeral_eq_Suc)

lemma dec_digits_step:
  "n < 10 \<Longrightarrow> dec_digits n = [digit_char n]"
  "\<not> n < 10 \<Longrightarrow> dec_digits n = dec_digits (n div 10) @ [digit_char (n mod 10)]"
  by (subst dec_digits.simps, simp)+

lemma trim_loop_step:
  "0 \<le> i \<Longrightarrow> str ! nat i = CHR ''0'' \<Longrightarrow> trim_loop str i len = trim_loop str (i - 1) (len - 1)"
  "0 \<le> i \<Longrightarrow> str ! nat i \<noteq> CHR ''0'' \<Longrightarrow> trim_loop str i len = len"
  "i < 0 \<Longrightarrow> trim_loop str i len = len"
  by (subst trim_loop.simps, simp)+

lemma len_loop_step:
  "0 < c \<Longrightarrow> len_loop c len = len_loop (c div 10) (len + 1)"
  "\<not> 0 < c \<Longrightarrow> len_loop c len = len"
  by (subst len_loop.simps, simp)+

lemma dec_str_one: "fixed_to_dec_str 0x10000 = '' 1.''"
proof -
  have 1: "dec_loop 0x10000 16 (1, 0) = (1, 0)"
    by (simp add: dec_loop_numeral dec_step_def shl_int_def OVERFLOW_def)
  have 2: "len_loop 1 15 = 16"
    by (simp add: len_loop_step)
  have 3: "snprintf_dec 16 1 0 = '' 1.000000000000'' @ [NUL]"
    by (simp add: snprintf_dec_def fmt_d_def fmt_012ld_def dec_digits_step digit_char_def eval_nat_numeral)
  have 4: "trim_loop (snprintf_dec 16 1 0) 14 16 = 4"
    unfolding 3 by (simp add: trim_loop_step)
  have 5: "c_string ((snprintf_dec 16 1 0)[3 := NUL]) = '' 1.''"
    unfolding 3 by (simp add: c_string_def NUL_def)
  show ?thesis
    by (simp add: fixed_to_dec_str_def word_sless_alt 1 2 4 5 Let_def)
qed

lemma dec_str_zero: "fixed_to_dec_str 0 = '' 0.''"
proof -
  have 1: "dec_loop 0 16 (0, 0) = (0, 0)"
    by (simp add: dec_loop_numeral dec_step_def shl_int_def OVERFLOW_def)
  have 2: "len_loop 0 15 = 15"
    by (simp add: len_loop_step)
  have 3: "snprintf_dec 15 0 0 = '' 0.00000000000'' @ [NUL]"
    by (simp add: snprintf_dec_def fmt_d_def fmt_012ld_def dec_digits_step digit_char_def eval_nat_numeral)
  have 4: "trim_loop (snprintf_dec 15 0 0) 13 15 = 4"
    unfolding 3 by (simp add: trim_loop_step)
  have 5: "c_string ((snprintf_dec 15 0 0)[3 := NUL]) = '' 0.''"
    unfolding 3 by (simp add: c_string_def NUL_def)
  show ?thesis
    by (simp add: fixed_to_dec_str_def word_sless_alt 1 2 4 5 Let_def)
qed

lemma dec_str_m25: "fixed_to_dec_str (- 0x28000) = ''-2.5''"
proof -
  have 0: "(- 0x28000 :: fixed) <s 0" "ucast (signed_drop_bit 16 (0x28000 :: fixed)) = (2 :: 16 word)"
    by (simp_all add: word_sless_alt)
  have 1: "dec_loop 0x28000 16 (2, 0) = (2, 500000000000)"
    by (simp add: dec_loop_numeral dec_step_def shl_int_def OVERFLOW_def DEC_LOOKUP_def)
  have 2: "len_loop 2 15 = 16"
    by (simp add: len_loop_step)
  have d: "dec_digits 500000000000 = ''500000000000''"
    by (simp add: dec_digits_step digit_char_def)
  have 3: "snprintf_dec 16 2 500000000000 = '' 2.500000000000'' @ [NUL]"
    by (simp add: snprintf_dec_def fmt_d_def fmt_012ld_def d dec_digits_step digit_char_def)
  have 4: "trim_loop (snprintf_dec 16 2 500000000000) 14 16 = 5"
    unfolding 3 by (simp add: trim_loop_step)
  have 5: "c_string ((snprintf_dec 16 2 500000000000)[4 := NUL, 0 := CHR ''-'']) = ''-2.5''"
    unfolding 3 by (simp add: c_string_def NUL_def)
  show ?thesis
    by (simp add: fixed_to_dec_str_def 0 1 2 4 5 Let_def)
qed

text \<open>
  Claim C6.  \<open>fixed_to_dec_str\<close> renders the encoding of 1.0 as \<open>'' 1.''\<close>, the encoding of
  -2.5 as \<open>''-2.5''\<close> and the encoding of 0 as \<open>'' 0.''\<close>: every trailing zero digit of the
  fractional field is trimmed, the digit right after the decimal point included.
\<close>

theorem dec_str_literals:
  "fixed_to_dec_str 0x10000 = '' 1.''
   \<and> fixed_to_dec_str (- 0x28000) = ''-2.5''
   \<and> fixed_to_dec_str 0 = '' 0.''"
proof (intro conjI)
  show "fixed_to_dec_str 0x10000 = '' 1.''"
    by (fact dec_str_one)
  show "fixed_to_dec_str (- 0x28000) = ''-2.5''"
    by (fact dec_str_m25)
  show "fixed_to_dec_str 0 = '' 0.''"
    by (fact dec_str_zero)
qed

text \<open>
  The claim as stated keeps the digit after the decimal point, so that 1.0 would read
  \<open>'' 1.0''\<close> and 0 would read \<open>'' 0.0''\<close>.
\<close>

theorem dec_str_counterexample:
  "\<not> (fixed_to_dec_str 0x10000 = '' 1.0''
      \<and> fixed_to_dec_str (- 0x28000) = ''-2.5''
      \<and> fixed_to_dec_str 0 = '' 0.0'')"
proof
  assume "fixed_to_dec_str 0x10000 = '' 1.0''
      \<and> fixed_to_dec_str (- 0x28000) = ''-2.5''
      \<and> fixed_to_dec_str 0 = '' 0.0''"
  then have "fixed_to_dec_str 0x10000 = '' 1.0''"
    by (rule conjunct1)
  then show False
    by (simp add: dec_str_one)
qed


end
